theory Spec2Isabelle
  imports Main "HOL-Library.Word"
begin

unbundle bit_operations_syntax

section \<open>The M100 free memory watcher (\<^verbatim>\<open>utility/M100_Free_Mem_Chk.cpp\<close>)\<close>

text \<open>
  The source is written for the 8-bit AVR controllers of the firmware: pointers are cast
  to \<^verbatim>\<open>uint16_t\<close>, the heap is found through avr-libc's \<^verbatim>\<open>__brkval\<close> and
  \<^verbatim>\<open>__bss_end\<close>, and the forensic dump uses the fixed RAM window 0x1B80..0x21FF. On that
  target \<^verbatim>\<open>int\<close>, \<^verbatim>\<open>int16_t\<close>, \<^verbatim>\<open>uint16_t\<close> and data pointers are all 16 bits wide.
  They are modelled as \<open>16 word\<close>: arithmetic wraps modulo \<open>2 ^ 16\<close>, \<open><\<close> and \<open>\<le>\<close>
  are the unsigned comparisons, \<open><s\<close> and \<open>\<le>s\<close> the signed ones. A comparison between an
  \<^verbatim>\<open>uint16_t\<close> and an \<^verbatim>\<open>int16_t\<close> is unsigned (the usual arithmetic conversions at equal
  rank). Memory is a function from addresses to bytes. A loop that may not terminate is a
  \<^theory_text>\<open>partial_function\<close> in the option monad: \<open>None\<close> means that the call never returns.

  The file is modelled with \<^verbatim>\<open>M100_FREE_MEMORY_WATCHER\<close>, \<^verbatim>\<open>M100_FREE_MEMORY_DUMPER\<close> and
  \<^verbatim>\<open>M100_FREE_MEMORY_CORRUPTOR\<close> enabled, so that the sub-commands D and C and the forensic
  dump of the check are compiled in.
\<close>

type_synonym addr = "16 word"
type_synonym byte = "8 word"
type_synonym mem = "addr \<Rightarrow> byte"

text \<open>\<^verbatim>\<open>#define TEST_BYTE ((char) 0xE5)\<close>\<close>

definition TEST_BYTE :: byte where
  "TEST_BYTE = 0xE5"

subsection \<open>Serial output\<close>

text \<open>
  The \<^verbatim>\<open>SERIAL_*\<close> macros and the hex print routines belong to the output formatter,
  which is not part of this file. What the code sends is kept as a list of items: a text, a
  decimal value, an address or a byte printed in hexadecimal, a single character, an end of
  line.
\<close>

datatype serial = Msg string | Val int | Hex16 addr | Hex8 byte | Chr byte | Eol

definition nl :: string where
  "nl = [CHR 0x0A]"

subsection \<open>Counting test bytes\<close>

text \<open>
  \<^verbatim>\<open>
  int16_t count_test_bytes(const uint8_t * const ptr) {
    for (uint16_t i = 0; i < 32000; i++)
      if (((char) ptr[i]) != TEST_BYTE)
        return i - 1;
    return -1;
  }
  \<close>
\<close>

function count_test_bytes_from :: "mem \<Rightarrow> addr \<Rightarrow> 16 word \<Rightarrow> 16 word" where
  "count_test_bytes_from m ptr i =
     (if i < 32000
      then (if m (ptr + i) \<noteq> TEST_BYTE then i - 1
            else count_test_bytes_from m ptr (i + 1))
      else - 1)"
  by pat_completeness auto
termination
proof (relation "measure (\<lambda>(m, ptr, i). 32000 - unat i)")
  show "wf (measure (\<lambda>(m :: mem, ptr :: addr, i :: 16 word). 32000 - unat i))"
    by simp
next
  fix m :: mem and ptr i :: "16 word"
  assume "i < 32000"
  then have "unat i < 32000"
    by (simp add: word_less_nat_alt)
  moreover from this have "unat (i + 1) = unat i + 1"
    by (simp add: unat_word_ariths)
  ultimately show "((m, ptr, i + 1), (m, ptr, i)) \<in> measure (\<lambda>(m, ptr, i). 32000 - unat i)"
    by simp
qed

definition count_test_bytes :: "mem \<Rightarrow> addr \<Rightarrow> 16 word" where
  "count_test_bytes m ptr = count_test_bytes_from m ptr 0"


subsection \<open>What the file takes from the rest of the firmware\<close>

text \<open>
  \<^verbatim>\<open>extern char command_queue[BUFSIZE][MAX_CMD_SIZE]\<close>, \<^verbatim>\<open>extern char* __brkval\<close> and
  \<^verbatim>\<open>extern char __bss_end\<close> are declared elsewhere. The address of the command queue, its
  two dimensions and the addresses of \<^verbatim>\<open>__bss_end\<close> and \<^verbatim>\<open>__brkval\<close> are fixed at link
  time: they are the fields of a configuration. The value of \<^verbatim>\<open>__brkval\<close> (null until
  malloc has been called), the RAM and the function-local static flag of \<^verbatim>\<open>gcode_M100\<close>
  make up the state of the machine.
\<close>

record config =
  command_queue :: addr
  BUFSIZE :: nat
  MAX_CMD_SIZE :: nat
  bss_end :: addr
  brkval_addr :: addr

record machine =
  ram :: mem
  brkval :: addr
  m100_not_initialized :: bool

text \<open>\<^verbatim>\<open>#define END_OF_HEAP() (__brkval ? __brkval : &__bss_end)\<close>\<close>

definition END_OF_HEAP :: "config \<Rightarrow> machine \<Rightarrow> addr" where
  "END_OF_HEAP cfg s = (if brkval s \<noteq> 0 then brkval s else bss_end cfg)"

text \<open>
  One M100 command line, as the G-code parser presents it: the parameter letters that
  \<^verbatim>\<open>code_seen\<close> finds and the number \<^verbatim>\<open>code_value_int()\<close> returns. \<^verbatim>\<open>top_of_stack()\<close>
  returns the address just above a local variable of its own frame, which depends on the
  depth of the call: the three values it returns during one command (called from
  \<^verbatim>\<open>gcode_M100\<close>, from \<^verbatim>\<open>check_for_free_memory_corruption\<close> and from
  \<^verbatim>\<open>corrupt_free_memory\<close>) are inputs as well.
\<close>

record invocation =
  letters :: string
  value_int :: "16 word"
  tos_gcode :: addr
  tos_check :: addr
  tos_corrupt :: addr

definition code_seen :: "invocation \<Rightarrow> char \<Rightarrow> bool" where
  "code_seen cmd c \<longleftrightarrow> c \<in> set (letters cmd)"

subsection \<open>M100 D: the dump\<close>

text \<open>
  The test of the second pass,
  \<^verbatim>\<open>&ptr[i] >= command_queue && &ptr[i] < &command_queue[BUFSIZE][MAX_CMD_SIZE]\<close>:
  the upper bound is the address of element \<^verbatim>\<open>[BUFSIZE][MAX_CMD_SIZE]\<close>, that is
  \<^verbatim>\<open>BUFSIZE * MAX_CMD_SIZE + MAX_CMD_SIZE\<close> bytes above the start of the array.
\<close>

definition in_command_area :: "config \<Rightarrow> addr \<Rightarrow> bool" where
  "in_command_area cfg a \<longleftrightarrow>
     command_queue cfg \<le> a \<and>
     a < command_queue cfg + of_nat (BUFSIZE cfg * MAX_CMD_SIZE cfg + MAX_CMD_SIZE cfg)"

text \<open>
  \<^verbatim>\<open>
  char ccc = (char)ptr[i];
  if (<in the command buffer area>) {
    if (!WITHIN(ccc, ' ', 0x7E)) ccc = ' ';
  }
  else {
    ccc = (ccc == TEST_BYTE) ? ' ' : '?';
  }
  \<close>
  \<^verbatim>\<open>char\<close> is signed with avr-gcc, so \<^verbatim>\<open>WITHIN\<close> compares signed values.
\<close>

definition dump_flag :: "config \<Rightarrow> mem \<Rightarrow> addr \<Rightarrow> byte" where
  "dump_flag cfg m a =
     (let ccc = m a in
      if in_command_area cfg a
      then (if \<not> (0x20 \<le>s ccc \<and> ccc \<le>s 0x7E) then 0x20 else ccc)
      else (if ccc = TEST_BYTE then 0x20 else 0x3F))"

text \<open>
  One pass of the body of \<^verbatim>\<open>while (ptr < sp)\<close>: the address, a colon, 16 bytes in
  hexadecimal with a dash before the ninth, a bar, the 16 flag characters, the end of the
  line. \<^verbatim>\<open>safe_delay\<close> and \<^verbatim>\<open>idle\<close> only pace the output.
\<close>

definition dump_row :: "config \<Rightarrow> mem \<Rightarrow> addr \<Rightarrow> serial list" where
  "dump_row cfg m ptr =
     [Hex16 ptr, Chr 0x3A]
     @ concat (map (\<lambda>i. (if i = 8 then [Chr 0x2D] else [])
                          @ [Hex8 (m (ptr + of_nat i)), Chr 0x20]) [0..<16])
     @ [Chr 0x7C]
     @ map (\<lambda>i. Chr (dump_flag cfg m (ptr + of_nat i))) [0..<16]
     @ [Eol]"

partial_function (option)
  dump_rows :: "config \<Rightarrow> mem \<Rightarrow> addr \<Rightarrow> addr \<Rightarrow> serial list \<Rightarrow> serial list option"
where
  "dump_rows cfg m ptr sp out =
     (if ptr < sp then dump_rows cfg m (ptr + 16) sp (out @ dump_row cfg m ptr)
      else Some out)"

text \<open>
  \<^verbatim>\<open>
  ptr = (uint8_t *)((uint16_t)ptr & 0xFFF0); // Align to 16-byte boundary
  sp  = (uint8_t *)((uint16_t)sp  | 0x000F); // Align sp to the 15th byte (at or above sp)
  \<close>
\<close>

definition dump_free_memory :: "config \<Rightarrow> mem \<Rightarrow> addr \<Rightarrow> addr \<Rightarrow> serial list option" where
  "dump_free_memory cfg m ptr sp = dump_rows cfg m (ptr AND 0xFFF0) (sp OR 0x000F) []"

definition M100_dump_routine ::
  "config \<Rightarrow> mem \<Rightarrow> string \<Rightarrow> addr \<Rightarrow> addr \<Rightarrow> serial list option" where
  "M100_dump_routine cfg m title start end' =
     (case dump_free_memory cfg m (start AND 0xFFF0) (end' OR 0x000F) of
        None \<Rightarrow> None
      | Some out \<Rightarrow> Some ([Msg title, Eol] @ out))"

subsection \<open>The corruption check\<close>

text \<open>
  The scan of \<^verbatim>\<open>check_for_free_memory_corruption\<close>:
  \<^verbatim>\<open>
  int block_cnt = 0;
  for (int i = 0; i < n; i++) {
    if (ptr[i] == TEST_BYTE) {
      int16_t j = count_test_bytes(ptr + i);
      if (j > 8) {
        i += j;
        block_cnt++;
        SERIAL_MV(" (", block_cnt);
        SERIAL_MV(") found=", j);
        SERIAL_M("   ");
      }
    }
  }
  \<close>
  The state of the loop holds \<^verbatim>\<open>block_cnt\<close>, what the loop has printed, and the
  addresses whose byte the loop's own test \<^verbatim>\<open>ptr[i] == TEST_BYTE\<close> has read.
\<close>

record scan =
  block_cnt :: "16 word"
  scan_out :: "serial list"
  examined :: "addr list"

partial_function (option)
  check_scan :: "mem \<Rightarrow> addr \<Rightarrow> 16 word \<Rightarrow> 16 word \<Rightarrow> scan \<Rightarrow> scan option"
where
  "check_scan m ptr n i st =
     (if i <s n
      then (let st1 = st\<lparr>examined := examined st @ [ptr + i]\<rparr> in
            if m (ptr + i) = TEST_BYTE
            then (let j = count_test_bytes m (ptr + i) in
                  if 8 <s j
                  then (let cnt = block_cnt st1 + 1 in
                        check_scan m ptr n (i + j + 1)
                          (st1\<lparr>block_cnt := cnt,
                               scan_out := scan_out st1
                                 @ [Msg '' ('', Val (sint cnt), Msg '') found='', Val (sint j),
                                    Msg ''   '']\<rparr>))
                  else check_scan m ptr n (i + 1) st1)
            else check_scan m ptr n (i + 1) st1)
      else Some st)"

record check_result =
  returned :: "16 word"
  printed :: "serial list"
  scanned :: "addr list"

definition check_for_free_memory_corruption ::
  "config \<Rightarrow> machine \<Rightarrow> addr \<Rightarrow> string \<Rightarrow> check_result option" where
  "check_for_free_memory_corruption cfg s tos title =
     (let ptr = END_OF_HEAP cfg s;
          sp = tos;
          n = sp - ptr;
          out1 = [Msg title,
                  Msg (nl @ ''fmc() n=''), Val (sint n),
                  Msg (nl @ ''&__brkval: ''), Hex16 (brkval_addr cfg),
                  Msg ''='', Hex16 (brkval s),
                  Msg (nl @ ''__bss_end: ''), Hex16 (bss_end cfg),
                  Msg '' sp='', Hex16 sp]
      in case (if sp < ptr
               then map_option (\<lambda>d. Msg '' sp < Heap '' # d)
                      (M100_dump_routine cfg (ram s)
                         (''   Memory corruption detected with sp<Heap'' @ nl) 0x1B80 0x21FF)
               else Some []) of
           None \<Rightarrow> None
         | Some out2 \<Rightarrow>
             (case check_scan (ram s) ptr n 0
                     \<lparr>block_cnt = 0, scan_out = [], examined = []\<rparr> of
                None \<Rightarrow> None
              | Some r \<Rightarrow>
                  (let out3 = out1 @ out2 @ scan_out r
                              @ [Msg ''  block_found='', Val (sint (block_cnt r))]
                              @ (if block_cnt r \<noteq> 1 \<or> brkval s \<noteq> 0
                                 then [Msg (nl @ ''Memory Corruption detected in free memory area.''),
                                       Eol]
                                 else []);
                       cnt = (if block_cnt r = 0 then - 1 else block_cnt r);
                       out4 = out3 @ [Msg '' return='']
                   in if cnt = 1
                      then Some \<lparr>returned = 0, printed = out4 @ [Chr 0x30, Eol],
                                 scanned = examined r\<rparr>
                      else Some \<lparr>returned = cnt, printed = out4 @ [Msg ''true'', Eol],
                                 scanned = examined r\<rparr>)))"

subsection \<open>M100 F: the report\<close>




subsection \<open>M100 C: the corruptor\<close>

text \<open>
  \<^verbatim>\<open>
  ptr += 8;
  const uint16_t near_top = top_of_stack() - ptr - 250,
                 j = near_top / (size + 1);
  for (uint16_t i = 1; i <= size; i++) {
    char * const addr = ptr + i * j;
    *addr = i;
    SERIAL_MV("\nCorrupting address: ", hex_address(addr));
  }
  \<close>
  \<^verbatim>\<open>size + 1\<close> is computed on 16 bits. A division by zero is a fault of its own, which
  the model returns as a value.
\<close>

datatype fault = DivisionByZero

partial_function (option)
  corrupt_loop ::
    "mem \<Rightarrow> addr \<Rightarrow> 16 word \<Rightarrow> 16 word \<Rightarrow> 16 word \<Rightarrow> serial list \<Rightarrow> (mem \<times> serial list) option"
where
  "corrupt_loop m ptr j size' i out =
     (if i \<le> size'
      then (let addr = ptr + i * j in
            corrupt_loop (m(addr := ucast i)) ptr j size' (i + 1)
              (out @ [Msg (nl @ ''Corrupting address: ''), Hex16 addr]))
      else Some (m, out))"

definition corrupt_free_memory ::
  "invocation \<Rightarrow> mem \<Rightarrow> addr \<Rightarrow> 16 word \<Rightarrow> (fault + mem \<times> serial list) option" where
  "corrupt_free_memory cmd m ptr size' =
     (if code_seen cmd CHR ''C''
      then (let ptr1 = ptr + 8;
                near_top = tos_corrupt cmd - ptr1 - 250
            in if size' + 1 = 0 then Some (Inl DivisionByZero)
               else (let j = near_top div (size' + 1) in
                     case corrupt_loop m ptr1 j size' 1
                            [Msg (''Corrupting free memory block.'' @ nl), Eol] of
                       None \<Rightarrow> None
                     | Some (m1, out) \<Rightarrow> Some (Inr (m1, out @ [Eol]))))
      else Some (Inr (m, [])))"

subsection \<open>M100 I: the initialisation\<close>

text \<open>
  \<^verbatim>\<open>memset(ptr, TEST_BYTE, size)\<close> writes the \<^verbatim>\<open>size\<close> bytes from \<^verbatim>\<open>ptr\<close> on.
\<close>

definition memset :: "mem \<Rightarrow> addr \<Rightarrow> byte \<Rightarrow> 16 word \<Rightarrow> mem" where
  "memset m p c n = (\<lambda>a. if a - p < n then c else m a)"

text \<open>
  The loop that reads the bytes back:
  \<^verbatim>\<open>
  for (uint16_t i = 0; i < size; i++) {
    if ((char)ptr[i] != TEST_BYTE) {
      SERIAL_MV("? address : ", hex_address(ptr + i));
      SERIAL_EMV("=", hex_byte(ptr[i]));
    }
  }
  \<close>
\<close>

function init_verify :: "mem \<Rightarrow> addr \<Rightarrow> 16 word \<Rightarrow> 16 word \<Rightarrow> serial list \<Rightarrow> serial list" where
  "init_verify m ptr size' i out =
     (if i < size'
      then init_verify m ptr size' (i + 1)
             (if m (ptr + i) \<noteq> TEST_BYTE
              then out @ [Msg ''? address : '', Hex16 (ptr + i), Msg ''='', Hex8 (m (ptr + i)), Eol]
              else out)
      else out)"
  by pat_completeness auto
termination
proof (relation "measure (\<lambda>(m, ptr, size', i, out). unat size' - unat i)")
  show "wf (measure (\<lambda>(m :: mem, ptr :: addr, size' :: 16 word, i :: 16 word,
                       out :: serial list). unat size' - unat i))"
    by simp
next
  fix m :: mem and ptr size' i :: "16 word" and out :: "serial list"
  assume "i < size'"
  then have lt: "unat i < unat size'"
    by (simp add: word_less_nat_alt)
  have "unat size' < 65536"
    using unsigned_less [of size', where ?'a = nat] by simp
  with lt have "unat (i + 1) = unat i + 1"
    by (simp add: unat_word_ariths)
  with lt show "((m, ptr, size', i + 1,
               if m (ptr + i) \<noteq> TEST_BYTE
               then out @ [Msg ''? address : '', Hex16 (ptr + i), Msg ''='', Hex8 (m (ptr + i)), Eol]
               else out),
              (m, ptr, size', i, out))
             \<in> measure (\<lambda>(m, ptr, size', i, out). unat size' - unat i)"
    by simp
qed

text \<open>
  \<^verbatim>\<open>
  void init_free_memory(uint8_t *ptr, int16_t size) {
    SERIAL_EM("Initializing free memory block.\n\n");
    size -= 250;
    if (size < 0) {
      SERIAL_EM("Unable to initialize.\n");
      return;
    }
    ptr += 8;
    memset(ptr, TEST_BYTE, size);
    SERIAL_V(size);
    SERIAL_EM(" bytes of memory initialized.\n");
    <the loop that reads the bytes back>
  }
  \<close>
\<close>

definition init_free_memory :: "mem \<Rightarrow> addr \<Rightarrow> 16 word \<Rightarrow> mem \<times> serial list" where
  "init_free_memory m ptr size' =
     (let out0 = [Msg (''Initializing free memory block.'' @ nl @ nl), Eol];
          size1 = size' - 250
      in if size1 <s 0
         then (m, out0 @ [Msg (''Unable to initialize.'' @ nl), Eol])
         else (let ptr1 = ptr + 8;
                   m1 = memset m ptr1 TEST_BYTE size1;
                   out1 = out0 @ [Val (sint size1), Msg ('' bytes of memory initialized.'' @ nl), Eol]
               in (m1, init_verify m1 ptr1 size1 0 out1)))"

subsection \<open>M100\<close>


section \<open>Notions used in the statements\<close>

text \<open>The byte \<open>d\<close> places above \<open>ptr\<close>, that is \<^verbatim>\<open>ptr[d]\<close>.\<close>

definition peek :: "mem \<Rightarrow> addr \<Rightarrow> nat \<Rightarrow> byte" where
  "peek m ptr d = m (ptr + of_nat d)"

text \<open>
  From index \<open>i\<close> and any state, the scan of the check continues as from index \<open>i'\<close> with
  \<open>k\<close> more blocks counted.
\<close>

definition scan_reaches :: "mem \<Rightarrow> addr \<Rightarrow> 16 word \<Rightarrow> nat \<Rightarrow> nat \<Rightarrow> nat \<Rightarrow> bool" where
  "scan_reaches m ptr n i i' k \<longleftrightarrow>
     (\<forall>st. \<exists>st'. block_cnt st' = block_cnt st + of_nat k
                \<and> check_scan m ptr n (of_nat i) st = check_scan m ptr n (of_nat i') st')"

text \<open>
  The memory above \<open>ptr\<close> holds, from place \<open>b\<close> on, runs of test bytes of the lengths
  listed, each followed by one byte that is not the test byte.
\<close>

fun runs_at :: "mem \<Rightarrow> addr \<Rightarrow> nat \<Rightarrow> nat list \<Rightarrow> bool" where
  "runs_at m ptr b [] = True"
| "runs_at m ptr b (L # Ls) =
     ((\<forall>d<L. peek m ptr (b + d) = TEST_BYTE)
      \<and> peek m ptr (b + L) \<noteq> TEST_BYTE
      \<and> runs_at m ptr (Suc (b + L)) Ls)"

text \<open>
  The scenario of the specification: a region of 2000 bytes, from the end of the static
  data at 0x0200 (nothing allocated yet) to a stack top at 0x09D0, in a memory of zeroes;
  and the command \<^verbatim>\<open>M100 C3\<close>.
\<close>

definition scenario_config :: config where
  "scenario_config = \<lparr>command_queue = 0x0060, BUFSIZE = 4, MAX_CMD_SIZE = 96,
                        bss_end = 0x0200, brkval_addr = 0x01F0\<rparr>"

definition scenario_machine :: machine where
  "scenario_machine = \<lparr>ram = (\<lambda>a. 0), brkval = 0, m100_not_initialized = True\<rparr>"

definition scenario_M100_C3 :: invocation where
  "scenario_M100_C3 = \<lparr>letters = ''C'', value_int = 3, tos_gcode = 0x09D0,
                         tos_check = 0x09D0, tos_corrupt = 0x09D0\<rparr>"


text \<open>
  The command \<^verbatim>\<open>M100 C2\<close> on a region of 288 bytes, from 0x0200 to a stack top at 0x0320.
  The corruptor finds 30 bytes between the 8 lowest and the 250 highest of the region, and
  the stride of its two writes is 30 / 3 = 10.
\<close>

definition small_M100_C2 :: invocation where
  "small_M100_C2 = \<lparr>letters = ''C'', value_int = 2, tos_gcode = 0x0320,
                      tos_check = 0x0320, tos_corrupt = 0x0320\<rparr>"

text \<open>
  A region of 20 bytes above 0x0200 whose first 9 bytes are test bytes, in a memory of
  zeroes.
\<close>

definition nine_byte_pool :: machine where
  "nine_byte_pool = \<lparr>ram = memset (\<lambda>a. 0) 0x0200 TEST_BYTE 9, brkval = 0,
                      m100_not_initialized = False\<rparr>"

text \<open>
  The number of rows the specification gives for a dump: the distance from the aligned
  start to the aligned end, divided by 16 and rounded up. The aligned start is the start
  with its four low bits cleared, the aligned end the end with its four low bits set, as
  in \<^verbatim>\<open>dump_free_memory\<close>.
\<close>

definition aligned_rows :: "addr \<Rightarrow> addr \<Rightarrow> nat" where
  "aligned_rows start end' = (unat (end' OR 0x000F) - unat (start AND 0xFFF0) + 15) div 16"

text \<open>
  A machine whose heap lies in external RAM, above the internal RAM that holds the stack:
  the heap has grown to 0xA1F2.
\<close>

definition external_heap_machine :: machine where
  "external_heap_machine = \<lparr>ram = (\<lambda>a. 0), brkval = 0xA1F2, m100_not_initialized = False\<rparr>"






section \<open>Properties\<close>

subsection \<open>Counting test bytes\<close>

text \<open>
  A run of \<open>L\<close> test bytes that ends below the cap of 32000 is measured as \<open>L - 1\<close>: the
  loop leaves at the index \<open>L\<close> of the first other byte and returns \<^verbatim>\<open>i - 1\<close>. A run that
  reaches the cap is measured as \<open>- 1\<close>.
\<close>

lemma count_from_run:
  assumes "unat i \<le> L" "L < 32000"
    and "\<forall>k. unat i \<le> k \<and> k < L \<longrightarrow> m (ptr + of_nat k) = TEST_BYTE"
    and "m (ptr + of_nat L) \<noteq> TEST_BYTE"
  shows "count_test_bytes_from m ptr i = of_nat L - 1"
  using assms
proof (induction "L - unat i" arbitrary: i)
  case 0
  then have "unat i = L" by simp
  then have i: "i = of_nat L" by (metis of_nat_unat ucast_id)
  have "i < 32000" using 0 \<open>unat i = L\<close> by (simp add: word_less_nat_alt)
  then show ?case using 0 i by simp
next
  case (Suc d)
  then have lt: "unat i < L" by simp
  then have i32: "i < 32000" using Suc.prems by (simp add: word_less_nat_alt)
  have u: "unat (i + 1) = unat i + 1" using lt Suc.prems by (simp add: unat_word_ariths)
  have "m (ptr + of_nat (unat i)) = TEST_BYTE" using Suc.prems lt by blast
  then have here: "m (ptr + i) = TEST_BYTE" by simp
  have "count_test_bytes_from m ptr (i + 1) = of_nat L - 1"
    using Suc u lt by (intro Suc.hyps(1)) auto
  then show ?case using i32 here by simp
qed


lemma count_test_bytes_run:
  assumes "L < 32000"
    and "\<forall>k<L. m (ptr + of_nat k) = TEST_BYTE"
    and "m (ptr + of_nat L) \<noteq> TEST_BYTE"
  shows "count_test_bytes m ptr = of_nat L - 1"
  unfolding count_test_bytes_def using assms by (intro count_from_run) auto

text \<open>
  C3. The claim: when the run of test bytes at \<open>p\<close> has length \<open>L < 32000\<close>,
  \<^verbatim>\<open>count_test_bytes(p)\<close> returns \<open>L\<close>. The code returns one less. Here ten test bytes
  are written at 0x0200 into a memory of zeroes, and the function returns 9.
\<close>

theorem count_test_bytes_short_by_one:
  "count_test_bytes (memset (\<lambda>a. 0) 0x0200 TEST_BYTE 10) 0x0200 = 9"
  by (simp add: count_test_bytes_def memset_def TEST_BYTE_def)

subsection \<open>Initialisation\<close>

lemma sint_sub_250:
  fixes x :: "16 word"
  assumes "- 32518 \<le> sint x"
  shows "sint (x - 250) = sint x - 250"
proof -
  have "sint x < 32768" using sint_lt [of x] by simp
  with assms show ?thesis
    by (simp add: sint_word_ariths signed_take_bit_int_eq_self)
qed

lemma memset_read: "memset m p c n (p + k) = (if k < n then c else m (p + k))"
  by (simp add: memset_def)

lemma init_verify_clean:
  "(\<And>k. k < size' \<Longrightarrow> m (ptr + k) = TEST_BYTE) \<Longrightarrow> init_verify m ptr size' i out = out"
proof (induction m ptr size' i out rule: init_verify.induct)
  case (1 m ptr size' i out)
  show ?case
  proof (cases "i < size'")
    case True
    then have "m (ptr + i) = TEST_BYTE" by (rule "1.prems")
    with True "1.IH" "1.prems" show ?thesis by simp
  next
    case False
    then show ?thesis by simp
  qed
qed

text \<open>
  From 250 bytes on, the initialisation writes \<open>size - 250\<close> test bytes, starting 8 bytes
  above \<open>ptr\<close>, and the loop that reads them back has nothing to report.
\<close>

lemma init_free_memory_fills:
  assumes "250 \<le> sint size'"
  shows "init_free_memory m ptr size' =
           (memset m (ptr + 8) TEST_BYTE (size' - 250),
            [Msg (''Initializing free memory block.'' @ nl @ nl), Eol,
             Val (sint size' - 250), Msg ('' bytes of memory initialized.'' @ nl), Eol])"
proof -
  have s: "sint (size' - 250) = sint size' - 250"
    using assms by (simp add: sint_sub_250)
  then have "\<not> size' - 250 <s 0"
    using assms by (simp add: word_sless_alt)
  moreover have "init_verify (memset m (ptr + 8) TEST_BYTE (size' - 250)) (ptr + 8)
                   (size' - 250) 0 out = out" for out
    by (rule init_verify_clean) (simp add: memset_read)
  ultimately show ?thesis
    by (simp add: init_free_memory_def s)
qed

text \<open>
  C4, as amended. For every region of fewer than 250 bytes (the margin kept below the
  stack; the size is the signed 16-bit difference of the two addresses, and down to
  \<open>- 32518\<close> the subtraction of 250 does not wrap), the initialisation prints that it is
  unable to initialise and writes nothing: the memory it returns is the memory it was given.
\<close>

theorem init_too_small:
  assumes "- 32518 \<le> sint size'" and "sint size' < 250"
  shows "init_free_memory m ptr size' =
           (m, [Msg (''Initializing free memory block.'' @ nl @ nl), Eol,
                Msg (''Unable to initialize.'' @ nl), Eol])"
proof -
  have "sint (size' - 250) < 0"
    using assms by (simp add: sint_sub_250)
  then have "size' - 250 <s 0"
    by (simp add: word_sless_alt)
  then show ?thesis
    by (simp add: init_free_memory_def)
qed

theorem init_too_small_witness:
  "init_free_memory (\<lambda>a. 0) 0x0200 100 =
     (\<lambda>a. 0, [Msg (''Initializing free memory block.'' @ nl @ nl), Eol,
              Msg (''Unable to initialize.'' @ nl), Eol])"
  using init_too_small [of 100 "\<lambda>a. 0" "0x0200"] by simp

text \<open>
  C4, as stated, fails between 250 and 258 bytes. A region of 255 bytes at 0x0200 in a
  memory of zeroes: the byte at 0x0208 is overwritten, and the initialisation does not
  report that it is unable to initialise.
\<close>

theorem init_small_region_counterexample:
  "fst (init_free_memory (\<lambda>a. 0) 0x0200 255) 0x0208 \<noteq> (\<lambda>a. 0) (0x0208 :: addr)
   \<and> Msg (''Unable to initialize.'' @ nl)
       \<notin> set (snd (init_free_memory (\<lambda>a. 0) 0x0200 255))"
  by (simp add: init_free_memory_fills memset_def TEST_BYTE_def nl_def)

subsection \<open>The dump\<close>

text \<open>
  C8. The claim: a byte outside the command queue is shown as a blank when it is the test
  byte and as a question mark otherwise. With a command queue of 4 lines of 96 bytes at
  0x0300, the queue ends at 0x047F. The byte at 0x0480 is outside it and holds the letter A
  (0x41): the claim has a question mark (0x3F) there, the code prints the letter, because its
  upper bound is the address of \<^verbatim>\<open>command_queue[BUFSIZE][MAX_CMD_SIZE]\<close>, one line above the
  end of the queue.
\<close>

theorem dump_flag_beyond_command_queue:
  "dump_flag \<lparr>command_queue = 0x0300, BUFSIZE = 4, MAX_CMD_SIZE = 96, bss_end = 0x0500,
              brkval_addr = 0x0280\<rparr> (\<lambda>a. 0x41) 0x0480 = 0x41"
  by (simp add: dump_flag_def in_command_area_def TEST_BYTE_def)

subsection \<open>Words and naturals\<close>

lemma sint_of_nat_16:
  "b < 32768 \<Longrightarrow> sint (of_nat b :: 16 word) = int b"
  by (simp add: signed_of_nat signed_take_bit_int_eq_self)

lemma sless_of_nat_16:
  "i < 32768 \<Longrightarrow> N < 32768 \<Longrightarrow> (of_nat i :: 16 word) <s of_nat N \<longleftrightarrow> i < N"
  by (simp add: word_sless_alt sint_of_nat_16)

lemma unat_of_nat_16: "d < 65536 \<Longrightarrow> unat (of_nat d :: 16 word) = d"
  by (simp add: unat_of_nat)

lemma of_nat_less_16:
  "a < 65536 \<Longrightarrow> b < 65536 \<Longrightarrow> (of_nat a :: 16 word) < of_nat b \<longleftrightarrow> a < b"
  by (simp add: word_less_nat_alt unat_of_nat_16)

lemma of_nat_eq_16:
  "a < 65536 \<Longrightarrow> b < 65536 \<Longrightarrow> (of_nat a :: 16 word) = of_nat b \<longleftrightarrow> a = b"
  by (metis unat_of_nat_16)

subsection \<open>The scan of the check, step by step\<close>

lemma scan_reaches_refl: "scan_reaches m ptr n i i 0"
  unfolding scan_reaches_def by auto

lemma scan_reaches_trans:
  assumes "scan_reaches m ptr n i i' k" and "scan_reaches m ptr n i' i'' k'"
  shows "scan_reaches m ptr n i i'' (k + k')"
  unfolding scan_reaches_def
proof
  fix st :: scan
  from assms(1) obtain st1 where 1: "block_cnt st1 = block_cnt st + of_nat k"
    "check_scan m ptr n (of_nat i) st = check_scan m ptr n (of_nat i') st1"
    unfolding scan_reaches_def by blast
  from assms(2) obtain st2 where 2: "block_cnt st2 = block_cnt st1 + of_nat k'"
    "check_scan m ptr n (of_nat i') st1 = check_scan m ptr n (of_nat i'') st2"
    unfolding scan_reaches_def by blast
  from 1 2 show "\<exists>st'. block_cnt st' = block_cnt st + of_nat (k + k')
       \<and> check_scan m ptr n (of_nat i) st = check_scan m ptr n (of_nat i'') st'"
    by (intro exI [of _ st2]) simp
qed

lemma scan_step_other:
  assumes "peek m ptr i \<noteq> TEST_BYTE" "i < N" "N < 32768"
  shows "scan_reaches m ptr (of_nat N) i (Suc i) 0"
  unfolding scan_reaches_def
proof
  fix st :: scan
  have "(of_nat i :: 16 word) <s of_nat N"
    using assms by (simp add: sless_of_nat_16)
  then have "check_scan m ptr (of_nat N) (of_nat i) st
      = check_scan m ptr (of_nat N) (of_nat (Suc i)) (st\<lparr>examined := examined st @ [ptr + of_nat i]\<rparr>)"
    using assms(1) by (subst check_scan.simps) (simp add: Let_def add.commute peek_def)
  then show "\<exists>st'. block_cnt st' = block_cnt st + of_nat 0
      \<and> check_scan m ptr (of_nat N) (of_nat i) st = check_scan m ptr (of_nat N) (of_nat (Suc i)) st'"
    by (intro exI [of _ "st\<lparr>examined := examined st @ [ptr + of_nat i]\<rparr>"]) simp
qed

lemma scan_step_small:
  assumes "peek m ptr i = TEST_BYTE"
    and "\<not> 8 <s count_test_bytes m (ptr + of_nat i)"
    and "i < N" "N < 32768"
  shows "scan_reaches m ptr (of_nat N) i (Suc i) 0"
  unfolding scan_reaches_def
proof
  fix st :: scan
  have "(of_nat i :: 16 word) <s of_nat N"
    using assms by (simp add: sless_of_nat_16)
  then have "check_scan m ptr (of_nat N) (of_nat i) st
      = check_scan m ptr (of_nat N) (of_nat (Suc i)) (st\<lparr>examined := examined st @ [ptr + of_nat i]\<rparr>)"
    using assms(1,2) by (subst check_scan.simps) (simp add: Let_def add.commute peek_def)
  then show "\<exists>st'. block_cnt st' = block_cnt st + of_nat 0
      \<and> check_scan m ptr (of_nat N) (of_nat i) st = check_scan m ptr (of_nat N) (of_nat (Suc i)) st'"
    by (intro exI [of _ "st\<lparr>examined := examined st @ [ptr + of_nat i]\<rparr>"]) simp
qed

lemma scan_skip:
  assumes "\<forall>d<k. peek m ptr (i + d) \<noteq> TEST_BYTE" "i + k \<le> N" "N < 32768"
  shows "scan_reaches m ptr (of_nat N) i (i + k) 0"
  using assms
proof (induction k arbitrary: i)
  case 0
  show ?case by (simp add: scan_reaches_refl)
next
  case (Suc k)
  have "peek m ptr i \<noteq> TEST_BYTE"
    using Suc.prems(1) by (metis add.right_neutral zero_less_Suc)
  then have a: "scan_reaches m ptr (of_nat N) i (Suc i) 0"
    using Suc.prems by (intro scan_step_other) auto
  have "\<forall>d<k. peek m ptr (Suc i + d) \<noteq> TEST_BYTE"
    using Suc.prems(1) by (metis Suc_less_eq add_Suc_shift)
  then have "scan_reaches m ptr (of_nat N) (Suc i) (Suc i + k) 0"
    using Suc.prems by (intro Suc.IH) auto
  with a show ?case
    using scan_reaches_trans by fastforce
qed

text \<open>
  A run of \<open>L\<close> test bytes is counted as a block when \<open>count_test_bytes\<close>, which measures
  it as \<open>L - 1\<close>, returns more than 8: from 10 bytes on. The scan then continues at the
  byte that ends the run.
\<close>

lemma scan_block:
  assumes "\<forall>d<L. peek m ptr (i + d) = TEST_BYTE"
    and "peek m ptr (i + L) \<noteq> TEST_BYTE"
    and "10 \<le> L" "L < 32000" "i < N" "N < 32768"
  shows "scan_reaches m ptr (of_nat N) i (i + L) 1"
  unfolding scan_reaches_def
proof
  fix st :: scan
  have lt: "(of_nat i :: 16 word) <s of_nat N"
    using assms by (simp add: sless_of_nat_16)
  have "peek m ptr i = TEST_BYTE"
    using assms(1,3) by (metis add.right_neutral less_le_trans zero_less_numeral)
  then have here: "m (ptr + of_nat i) = TEST_BYTE"
    by (simp add: peek_def)
  have j: "count_test_bytes m (ptr + of_nat i) = of_nat L - 1"
    using assms by (intro count_test_bytes_run) (simp_all add: add.assoc peek_def)
  have "of_nat L - 1 = (of_nat (L - 1) :: 16 word)"
    using assms(3) by (simp add: of_nat_diff)
  then have "sint (of_nat L - 1 :: 16 word) = int (L - 1)"
    using assms(4) by (simp add: sint_of_nat_16)
  then have big: "8 <s (of_nat L - 1 :: 16 word)"
    using assms(3) by (simp add: word_sless_alt)
  define st' where "st' = st\<lparr>examined := examined st @ [ptr + of_nat i],
       block_cnt := block_cnt st + 1,
       scan_out := scan_out st @ [Msg '' ('', Val (sint (block_cnt st + 1)), Msg '') found='',
                                  Val (sint (of_nat L - 1 :: 16 word)), Msg ''   '']\<rparr>"
  have "check_scan m ptr (of_nat N) (of_nat i) st = check_scan m ptr (of_nat N) (of_nat (i + L)) st'"
    using lt here big by (subst check_scan.simps) (simp add: Let_def j st'_def add.commute)
  moreover have "block_cnt st' = block_cnt st + of_nat 1"
    by (simp add: st'_def)
  ultimately show "\<exists>st'. block_cnt st' = block_cnt st + of_nat 1
      \<and> check_scan m ptr (of_nat N) (of_nat i) st = check_scan m ptr (of_nat N) (of_nat (i + L)) st'"
    by blast
qed



lemma scan_runs:
  assumes "runs_at m ptr b Ls" "\<forall>L\<in>set Ls. 10 \<le> L \<and> L < 32000"
    and "b + sum_list (map Suc Ls) \<le> N" "N < 32768"
  shows "scan_reaches m ptr (of_nat N) b (b + sum_list (map Suc Ls)) (length Ls)"
  using assms
proof (induction Ls arbitrary: b)
  case Nil
  then show ?case by (simp add: scan_reaches_refl)
next
  case (Cons L Ls)
  have 1: "scan_reaches m ptr (of_nat N) b (b + L) 1"
    using Cons.prems by (intro scan_block) auto
  have 2: "scan_reaches m ptr (of_nat N) (b + L) (Suc (b + L)) 0"
    using Cons.prems by (intro scan_step_other) auto
  have 3: "scan_reaches m ptr (of_nat N) (Suc (b + L)) (Suc (b + L) + sum_list (map Suc Ls)) (length Ls)"
    using Cons.prems by (intro Cons.IH) auto
  have "scan_reaches m ptr (of_nat N) b (Suc (b + L) + sum_list (map Suc Ls)) (1 + 0 + length Ls)"
    using 1 2 3 by (blast intro: scan_reaches_trans)
  then show ?case by (simp add: add.assoc)
qed

lemma scan_reaches_end:
  assumes "scan_reaches m ptr (of_nat N) 0 N K"
  shows "\<exists>r. check_scan m ptr (of_nat N) 0 st = Some r \<and> block_cnt r = block_cnt st + of_nat K"
proof -
  from assms obtain st' where st': "block_cnt st' = block_cnt st + of_nat K"
    "check_scan m ptr (of_nat N) (of_nat 0) st = check_scan m ptr (of_nat N) (of_nat N) st'"
    unfolding scan_reaches_def by blast
  have "check_scan m ptr (of_nat N) (of_nat N) st' = Some st'"
    by (subst check_scan.simps) simp
  with st' show ?thesis by simp
qed

text \<open>
  What the check makes of the count of its scan, when the stack is not below the heap:
  0 for one block, \<open>- 1\<close> for none, the count otherwise.
\<close>

lemma check_returns:
  assumes "\<not> tos < END_OF_HEAP cfg s"
    and "check_scan (ram s) (END_OF_HEAP cfg s) (tos - END_OF_HEAP cfg s) 0
           \<lparr>block_cnt = 0, scan_out = [], examined = []\<rparr> = Some r"
  shows "\<exists>res. check_for_free_memory_corruption cfg s tos title = Some res
           \<and> returned res = (if block_cnt r = 1 then 0
                              else if block_cnt r = 0 then - 1 else block_cnt r)"
  using assms by (simp add: check_for_free_memory_corruption_def Let_def)

lemma check_returns2:
  assumes "\<not> tos < END_OF_HEAP cfg s"
    and "check_scan (ram s) (END_OF_HEAP cfg s) (tos - END_OF_HEAP cfg s) 0
           \<lparr>block_cnt = 0, scan_out = [], examined = []\<rparr> = Some r"
  shows "\<exists>res pre post. check_for_free_memory_corruption cfg s tos title = Some res
           \<and> returned res = (if block_cnt r = 1 then 0
                              else if block_cnt r = 0 then - 1 else block_cnt r)
           \<and> printed res = pre @ [Msg ''  block_found='', Val (sint (block_cnt r))] @ post"
proof -
  define out1 where "out1 = [Msg title,
                  Msg (nl @ ''fmc() n=''), Val (sint (tos - END_OF_HEAP cfg s)),
                  Msg (nl @ ''&__brkval: ''), Hex16 (brkval_addr cfg),
                  Msg ''='', Hex16 (brkval s),
                  Msg (nl @ ''__bss_end: ''), Hex16 (bss_end cfg),
                  Msg '' sp='', Hex16 tos] @ scan_out r"
  define warn where "warn = (if block_cnt r \<noteq> 1 \<or> brkval s \<noteq> 0
                                 then [Msg (nl @ ''Memory Corruption detected in free memory area.''),
                                       Eol]
                                 else [])"
  show ?thesis
  proof (cases "block_cnt r = 1")
    case True
    then have "check_for_free_memory_corruption cfg s tos title =
      Some \<lparr>returned = 0,
            printed = out1 @ [Msg ''  block_found='', Val (sint (block_cnt r))]
                      @ (warn @ [Msg '' return='', Chr 0x30, Eol]),
            scanned = examined r\<rparr>"
      using assms by (simp add: check_for_free_memory_corruption_def Let_def out1_def warn_def)
    with True show ?thesis by fastforce
  next
    case False
    then have "check_for_free_memory_corruption cfg s tos title =
      Some \<lparr>returned = (if block_cnt r = 0 then - 1 else block_cnt r),
            printed = out1 @ [Msg ''  block_found='', Val (sint (block_cnt r))]
                      @ (warn @ [Msg '' return='', Msg ''true'', Eol]),
            scanned = examined r\<rparr>"
      using assms by (simp add: check_for_free_memory_corruption_def Let_def out1_def warn_def)
    with False show ?thesis by fastforce
  qed
qed

subsection \<open>The pool after the initialisation\<close>

lemma init_region:
  assumes "250 \<le> S" "S < 32768" "d < 65536"
  shows "peek (fst (init_free_memory m ptr (of_nat S))) ptr d
           = (if 8 \<le> d \<and> d < S - 242 then TEST_BYTE else peek m ptr d)"
proof -
  have "250 \<le> sint (of_nat S :: 16 word)"
    using assms by (simp add: sint_of_nat_16)
  then have f: "fst (init_free_memory m ptr (of_nat S)) = memset m (ptr + 8) TEST_BYTE (of_nat S - 250)"
    by (simp add: init_free_memory_fills)
  have n: "(of_nat S - 250 :: 16 word) = of_nat (S - 250)"
    using assms(1) by (simp add: of_nat_diff)
  have "(of_nat d - 8 :: 16 word) < of_nat (S - 250) \<longleftrightarrow> 8 \<le> d \<and> d < S - 242"
  proof (cases "8 \<le> d")
    case True
    then have e: "(of_nat d - 8 :: 16 word) = of_nat (d - 8)"
      by (simp add: of_nat_diff)
    have "(of_nat d - 8 :: 16 word) < of_nat (S - 250)
            \<longleftrightarrow> (of_nat (d - 8) :: 16 word) < of_nat (S - 250)"
      by (simp only: e)
    also have "\<dots> \<longleftrightarrow> d - 8 < S - 250"
      using assms by (intro of_nat_less_16) auto
    also have "\<dots> \<longleftrightarrow> 8 \<le> d \<and> d < S - 242"
      using True assms(1) by arith
    finally show ?thesis .
  next
    case False
    then have e: "(of_nat d - 8 :: 16 word) = of_nat (d + 65528)"
      by simp
    have "(of_nat d - 8 :: 16 word) < of_nat (S - 250)
            \<longleftrightarrow> (of_nat (d + 65528) :: 16 word) < of_nat (S - 250)"
      by (simp only: e)
    also have "\<dots> \<longleftrightarrow> d + 65528 < S - 250"
      using False assms by (intro of_nat_less_16) auto
    also have "\<dots> \<longleftrightarrow> 8 \<le> d \<and> d < S - 242"
      using False assms(2) by arith
    finally show ?thesis .
  qed
  then have "(ptr + of_nat d) - (ptr + 8) < (of_nat S - 250 :: 16 word) \<longleftrightarrow> 8 \<le> d \<and> d < S - 242"
    by (simp only: n add_diff_cancel_left)
  then show ?thesis
    unfolding f memset_def peek_def by simp
qed

lemma init_pool:
  fixes S :: nat
  assumes "S = unat (sp - ptr)" "250 \<le> S" "S < 32768"
    and "\<forall>d<S. d < 8 \<or> S - 242 \<le> d \<longrightarrow> peek m ptr d \<noteq> TEST_BYTE"
    and "d < S"
  shows "peek (fst (init_free_memory m ptr (sp - ptr))) ptr d = TEST_BYTE
           \<longleftrightarrow> 8 \<le> d \<and> d < S - 242"
proof -
  have "sp - ptr = of_nat S"
    using assms(1) by simp
  then have "peek (fst (init_free_memory m ptr (sp - ptr))) ptr d
               = (if 8 \<le> d \<and> d < S - 242 then TEST_BYTE else peek m ptr d)"
    using assms(2,3,5) by (simp add: init_region)
  moreover have "peek m ptr d \<noteq> TEST_BYTE" if "\<not> (8 \<le> d \<and> d < S - 242)"
    using that assms(4,5) by (metis not_le_imp_less)
  ultimately show ?thesis by auto
qed


lemma scenario_heap [simp]: "END_OF_HEAP scenario_config scenario_machine = 0x0200"
  by (simp add: END_OF_HEAP_def scenario_config_def scenario_machine_def)

lemma scenario_margins:
  "\<forall>d<2000. d < 8 \<or> 2000 - 242 \<le> d \<longrightarrow> peek (ram scenario_machine) 0x0200 d \<noteq> TEST_BYTE"
  by (simp add: peek_def scenario_machine_def TEST_BYTE_def)





subsection \<open>The pool after the corruptor\<close>

lemma corrupt_loop_eq:
  assumes "size' < 0xFFFF" "unat i \<le> Suc (unat size')"
  shows "corrupt_loop m ptr j size' i out =
           Some (foldl (\<lambda>m k. m(ptr + of_nat k * j := ucast (of_nat k :: 16 word))) m
                   [unat i..<Suc (unat size')],
                 out @ concat (map (\<lambda>k. [Msg (nl @ ''Corrupting address: ''),
                                          Hex16 (ptr + of_nat k * j)])
                                [unat i..<Suc (unat size')]))"
  using assms(2)
proof (induction "Suc (unat size') - unat i" arbitrary: i m out)
  case 0
  then have "unat size' < unat i" by simp
  then have "\<not> i \<le> size'" by (simp add: word_le_nat_alt)
  moreover have "[unat i..<Suc (unat size')] = []" using 0 by simp
  ultimately show ?case
    by (subst corrupt_loop.simps) simp
next
  case (Suc d)
  then have le: "unat i \<le> unat size'" by simp
  then have i: "i \<le> size'" by (simp add: word_le_nat_alt)
  have "unat size' < 65535"
    using assms(1) by (simp add: word_less_nat_alt)
  with le have u: "unat (i + 1) = Suc (unat i)"
    by (simp add: unat_word_ariths)
  have l: "[unat i..<Suc (unat size')] = unat i # [Suc (unat i)..<Suc (unat size')]"
    using le by (simp add: upt_conv_Cons)
  have "corrupt_loop m ptr j size' i out =
          corrupt_loop (m(ptr + i * j := ucast i)) ptr j size' (i + 1)
            (out @ [Msg (nl @ ''Corrupting address: ''), Hex16 (ptr + i * j)])"
    using i by (subst corrupt_loop.simps) (simp add: Let_def)
  also have "\<dots> = Some (foldl (\<lambda>m k. m(ptr + of_nat k * j := ucast (of_nat k :: 16 word)))
                          (m(ptr + i * j := ucast i)) [unat (i + 1)..<Suc (unat size')],
                        (out @ [Msg (nl @ ''Corrupting address: ''), Hex16 (ptr + i * j)])
                        @ concat (map (\<lambda>k. [Msg (nl @ ''Corrupting address: ''),
                                          Hex16 (ptr + of_nat k * j)])
                                [unat (i + 1)..<Suc (unat size')]))"
    using Suc u le by (intro Suc.hyps(1)) auto
  finally show ?case
    unfolding l u by simp
qed

lemma writes_elsewhere:
  "a \<notin> A ` set ks \<Longrightarrow> foldl (\<lambda>m k. m(A k := V k)) m ks a = m a"
  by (induction ks arbitrary: m) auto

lemma writes_there:
  "a \<in> A ` set ks \<Longrightarrow> foldl (\<lambda>m k. m(A k := V k)) m ks a \<in> V ` set ks"
proof (induction ks arbitrary: m)
  case Nil
  then show ?case by simp
next
  case (Cons k ks)
  show ?case
  proof (cases "a \<in> A ` set ks")
    case True
    then show ?thesis using Cons.IH by simp
  next
    case False
    with Cons.prems have a: "a = A k" by auto
    have "foldl (\<lambda>m k. m(A k := V k)) (m(A k := V k)) ks a = (m(A k := V k)) a"
      using False by (rule writes_elsewhere)
    then have "foldl (\<lambda>m k. m(A k := V k)) m (k # ks) a = V k"
      by (simp only: foldl_Cons a fun_upd_same)
    then show ?thesis by (metis image_eqI list.set_intros(1))
  qed
qed

lemma written_byte:
  assumes "k \<le> 228"
  shows "(ucast (of_nat k :: 16 word) :: byte) \<noteq> TEST_BYTE"
proof -
  have "unat (ucast (of_nat k :: 16 word) :: byte) = k"
    using assms by (simp add: unsigned_ucast_eq unat_of_nat take_bit_nat_eq_self)
  moreover have "unat TEST_BYTE = 229"
    by (simp add: TEST_BYTE_def)
  ultimately show ?thesis
    using assms by auto
qed

lemma corrupted_peek:
  fixes J n :: nat and ptr :: addr
  defines "A \<equiv> \<lambda>k. ptr + 8 + of_nat k * of_nat J"
  defines "V \<equiv> \<lambda>k. (ucast (of_nat k :: 16 word) :: byte)"
  assumes "8 + n * J < 65536" "d < 65536" "n \<le> 228"
  shows "peek (foldl (\<lambda>m k. m(A k := V k)) m [1..<Suc n]) ptr d = TEST_BYTE
           \<longleftrightarrow> peek m ptr d = TEST_BYTE \<and> \<not> (\<exists>k. 1 \<le> k \<and> k \<le> n \<and> d = 8 + k * J)"
proof -
  define ks where "ks = [1..<Suc n]"
  have ks: "k \<in> set ks \<longleftrightarrow> 1 \<le> k \<and> k \<le> n" for k
    by (auto simp: ks_def)
  have A: "A k = ptr + of_nat d \<longleftrightarrow> d = 8 + k * J" if "k \<le> n" for k
  proof -
    have "k * J \<le> n * J" using that by (intro mult_le_mono1)
    then have "8 + k * J < 65536" using assms(3) by linarith
    then have "(of_nat (8 + k * J) :: 16 word) = of_nat d \<longleftrightarrow> 8 + k * J = d"
      using assms(4) by (intro of_nat_eq_16)
    moreover have "A k = ptr + of_nat (8 + k * J)"
      by (simp add: A_def)
    ultimately show ?thesis by auto
  qed
  have "peek (foldl (\<lambda>m k. m(A k := V k)) m ks) ptr d = TEST_BYTE
           \<longleftrightarrow> peek m ptr d = TEST_BYTE \<and> \<not> (\<exists>k. 1 \<le> k \<and> k \<le> n \<and> d = 8 + k * J)"
  proof (cases "\<exists>k. 1 \<le> k \<and> k \<le> n \<and> d = 8 + k * J")
    case True
    then obtain k where k: "1 \<le> k" "k \<le> n" "d = 8 + k * J" by blast
    then have "ptr + of_nat d = A k" using A [of k] by simp
    moreover have "k \<in> set ks" using k(1,2) by (simp only: ks)
    ultimately have "ptr + of_nat d \<in> A ` set ks"
      by (simp only: imageI)
    then have "foldl (\<lambda>m k. m(A k := V k)) m ks (ptr + of_nat d) \<in> V ` set ks"
      by (rule writes_there)
    then obtain k' where k': "k' \<in> set ks"
      "foldl (\<lambda>m k. m(A k := V k)) m ks (ptr + of_nat d) = V k'"
      by blast
    from k'(1) have "k' \<le> n" by (simp only: ks)
    with assms(5) have "k' \<le> 228" by simp
    then have "V k' \<noteq> TEST_BYTE"
      unfolding V_def by (rule written_byte)
    with k'(2) have "peek (foldl (\<lambda>m k. m(A k := V k)) m ks) ptr d \<noteq> TEST_BYTE"
      by (simp only: peek_def not_False_eq_True)
    with True show ?thesis by blast
  next
    case False
    have "ptr + of_nat d \<notin> A ` set ks"
    proof
      assume "ptr + of_nat d \<in> A ` set ks"
      then obtain k where k: "k \<in> set ks" "A k = ptr + of_nat d" by force
      from k(1) have "1 \<le> k" "k \<le> n" by (simp_all only: ks)
      with A [of k] k(2) False show False by blast
    qed
    then have "foldl (\<lambda>m k. m(A k := V k)) m ks (ptr + of_nat d) = m (ptr + of_nat d)"
      by (rule writes_elsewhere)
    with False show ?thesis by (simp only: peek_def simp_thms)
  qed
  then show ?thesis
    by (simp only: ks_def)
qed

lemma corrupt_free_memory_writes:
  assumes "code_seen cmd CHR ''C''" "tos_corrupt cmd = ptr + of_nat S"
    and "258 \<le> S" "S < 65536" "n < 65535"
  shows "\<exists>out. corrupt_free_memory cmd m ptr (of_nat n) =
           Some (Inr (foldl (\<lambda>m k. m(ptr + 8 + of_nat k * of_nat ((S - 258) div Suc n)
                                       := ucast (of_nat k :: 16 word))) m [1..<Suc n], out))"
proof -
  have n: "unat (of_nat n :: 16 word) = n"
    using assms(5) by (simp add: unat_of_nat_16)
  have lt: "(of_nat n :: 16 word) < 0xFFFF"
    using assms(5) by (simp add: word_less_nat_alt n)
  have d: "(of_nat n + 1 :: 16 word) = of_nat (Suc n)"
    by simp
  have ud: "unat (of_nat (Suc n) :: 16 word) = Suc n"
    using assms(5) by (intro unat_of_nat_16) simp
  then have nz: "(of_nat n + 1 :: 16 word) \<noteq> 0"
    unfolding d by (metis Zero_not_Suc unat_0)
  have "tos_corrupt cmd - (ptr + 8) - 250 = (of_nat S - 258 :: 16 word)"
    using assms(2) by simp
  also have "\<dots> = of_nat (S - 258)"
    using assms(3) by (simp add: of_nat_diff)
  finally have nt: "tos_corrupt cmd - (ptr + 8) - 250 = (of_nat (S - 258) :: 16 word)" .
  have "unat (of_nat (S - 258) :: 16 word) = S - 258"
    using assms(4) by (intro unat_of_nat_16) simp
  then have j: "(of_nat (S - 258) :: 16 word) div (of_nat n + 1) = of_nat ((S - 258) div Suc n)"
    unfolding d by (simp only: word_arith_nat_div ud)
  obtain r where r: "corrupt_loop m (ptr + 8) (of_nat ((S - 258) div Suc n)) (of_nat n) 1
      [Msg (''Corrupting free memory block.'' @ nl), Eol] =
      Some (foldl (\<lambda>m k. m(ptr + 8 + of_nat k * of_nat ((S - 258) div Suc n)
                                       := ucast (of_nat k :: 16 word))) m [1..<Suc n], r)"
    using corrupt_loop_eq [OF lt, of 1 m "ptr + 8" "of_nat ((S - 258) div Suc n)"
        "[Msg (''Corrupting free memory block.'' @ nl), Eol]"]
    by (simp add: n)
  show ?thesis
    unfolding corrupt_free_memory_def Let_def nt j using assms(1) nz r by simp
qed

lemma between_multiples:
  fixes k k' J :: nat
  assumes "k * J < k' * J" "k' * J < Suc k * J"
  shows False
proof -
  from assms(1) have "k < k'" by simp
  then have "Suc k \<le> k'" by simp
  then have "Suc k * J \<le> k' * J" by (rule mult_le_mono1)
  with assms(2) show False by simp
qed

lemma corrupted_runs_tail:
  assumes P: "\<And>d. d < S \<Longrightarrow> peek m ptr d = TEST_BYTE
                 \<longleftrightarrow> 8 \<le> d \<and> d < S - 242 \<and> \<not> (\<exists>k. 1 \<le> k \<and> k \<le> n \<and> d = 8 + k * J)"
    and J: "1 \<le> J" "Suc n * J \<le> S - 258" "258 \<le> S"
    and k: "1 \<le> k" "k + r = n"
  shows "runs_at m ptr (Suc (8 + k * J)) (replicate r (J - 1) @ [S - 251 - n * J])"
  using k
proof (induction r arbitrary: k)
  case 0
  then have kn: "k = n" by simp
  have nJ: "n * J + J \<le> S - 258" using J(2) by (simp add: add.commute)
  have "peek m ptr (Suc (8 + n * J) + d) = TEST_BYTE" if "d < S - 251 - n * J" for d
  proof -
    have "\<not> (\<exists>k'. 1 \<le> k' \<and> k' \<le> n \<and> Suc (8 + n * J) + d = 8 + k' * J)"
    proof
      assume "\<exists>k'. 1 \<le> k' \<and> k' \<le> n \<and> Suc (8 + n * J) + d = 8 + k' * J"
      then obtain k' where "k' \<le> n" "Suc (8 + n * J) + d = 8 + k' * J" by blast
      moreover from this have "k' * J \<le> n * J" by (intro mult_le_mono1)
      ultimately show False by simp
    qed
    then show ?thesis
      using that nJ J(3) by (subst P) auto
  qed
  moreover have "peek m ptr (Suc (8 + n * J) + (S - 251 - n * J)) \<noteq> TEST_BYTE"
  proof -
    have "Suc (8 + n * J) + (S - 251 - n * J) = S - 242"
      using nJ J(3) by simp
    then show ?thesis
      using J(3) by (subst P) auto
  qed
  ultimately show ?case
    using kn by simp
next
  case (Suc r)
  then have kn: "Suc k \<le> n" by simp
  then have "Suc k * J \<le> n * J" by (intro mult_le_mono1)
  then have kJ: "k * J + J \<le> n * J" by (simp add: add.commute)
  have nJ: "n * J + J \<le> S - 258" using J(2) by (simp add: add.commute)
  have "peek m ptr (Suc (8 + k * J) + d) = TEST_BYTE" if "d < J - 1" for d
  proof -
    have "\<not> (\<exists>k'. 1 \<le> k' \<and> k' \<le> n \<and> Suc (8 + k * J) + d = 8 + k' * J)"
    proof
      assume "\<exists>k'. 1 \<le> k' \<and> k' \<le> n \<and> Suc (8 + k * J) + d = 8 + k' * J"
      then obtain k' where k': "Suc (8 + k * J) + d = 8 + k' * J" by blast
      then have "k * J < k' * J" by linarith
      moreover have "Suc k * J = k * J + J" by simp
      then have "k' * J < Suc k * J" using k' that by linarith
      ultimately show False by (rule between_multiples)
    qed
    then show ?thesis
      using that kJ nJ J(3) by (subst P) auto
  qed
  then have a: "\<forall>d<J - 1. peek m ptr (Suc (8 + k * J) + d) = TEST_BYTE"
    by blast
  have b: "peek m ptr (Suc (8 + k * J) + (J - 1)) \<noteq> TEST_BYTE"
  proof -
    have e: "Suc (8 + k * J) + (J - 1) = 8 + Suc k * J"
      using J(1) by simp
    have "\<exists>k'. 1 \<le> k' \<and> k' \<le> n \<and> 8 + Suc k * J = 8 + k' * J"
      using kn by (intro exI [of _ "Suc k"]) simp
    then show ?thesis
      unfolding e using kJ nJ J(3) by (subst P) auto
  qed
  have e2: "Suc (Suc (8 + k * J) + (J - 1)) = Suc (8 + Suc k * J)"
    using J(1) by simp
  have c: "runs_at m ptr (Suc (8 + Suc k * J)) (replicate r (J - 1) @ [S - 251 - n * J])"
    using Suc.prems by (intro Suc.IH) auto
  from a b c show ?case
    by (simp only: replicate_Suc append_Cons runs_at.simps e2 simp_thms)
qed

lemma corrupted_scan:
  assumes P: "\<And>d. d < S \<Longrightarrow> peek m ptr d = TEST_BYTE
                 \<longleftrightarrow> 8 \<le> d \<and> d < S - 242 \<and> \<not> (\<exists>k. 1 \<le> k \<and> k \<le> n \<and> d = 8 + k * J)"
    and J: "11 \<le> J" "Suc n * J \<le> S - 258" "S \<le> 32249"
    and n: "1 \<le> n"
  shows "scan_reaches m ptr (of_nat S) 0 S (Suc n)"
proof -
  have nJ: "n * J + J \<le> S - 258" using J(2) by (simp add: add.commute)
  have "1 * J \<le> n * J" using n by (intro mult_le_mono1)
  then have J_le: "J \<le> n * J" by simp
  have S: "269 \<le> S" using J(1) nJ J_le by linarith
  define last where "last = S - 251 - n * J"
  define Ls where "Ls = J # replicate (n - 1) (J - 1) @ [last]"
  have a: "scan_reaches m ptr (of_nat S) 0 (0 + 8) 0"
    using S J(3) by (intro scan_skip) (auto simp: P)
  have first: "peek m ptr (8 + d) = TEST_BYTE" if "d < J" for d
  proof -
    have "\<not> (\<exists>k'. 1 \<le> k' \<and> k' \<le> n \<and> 8 + d = 8 + k' * J)"
    proof
      assume "\<exists>k'. 1 \<le> k' \<and> k' \<le> n \<and> 8 + d = 8 + k' * J"
      then obtain k' where k': "1 \<le> k'" "d = k' * J" by auto
      then have "1 * J \<le> k' * J" by (intro mult_le_mono1)
      with k' that show False by simp
    qed
    then show ?thesis
      using that nJ J_le S by (subst P) auto
  qed
  have "\<exists>k'. 1 \<le> k' \<and> k' \<le> n \<and> 8 + J = 8 + k' * J"
    using n by (intro exI [of _ 1]) simp
  then have term1: "peek m ptr (8 + J) \<noteq> TEST_BYTE"
    using nJ J_le S by (subst P) auto
  have "runs_at m ptr (Suc (8 + 1 * J)) (replicate (n - 1) (J - 1) @ [S - 251 - n * J])"
    using J n S by (intro corrupted_runs_tail [where S = S and n = n]) (auto simp: P)
  then have tail: "runs_at m ptr (Suc (8 + J)) (replicate (n - 1) (J - 1) @ [last])"
    by (simp add: last_def)
  from first term1 tail have runs: "runs_at m ptr 8 Ls"
    by (simp only: Ls_def runs_at.simps simp_thms) blast
  have "sum_list (map Suc Ls) = Suc J + (n - 1) * Suc (J - 1) + Suc last"
    by (simp add: Ls_def sum_list_replicate)
  also have "(n - 1) * Suc (J - 1) = (n - 1) * J"
    using J(1) by simp
  also have "Suc J + (n - 1) * J = Suc (n * J)"
    using n by (cases n) simp_all
  also have "Suc (n * J) + Suc last = S - 249"
    using nJ S by (simp add: last_def)
  finally have sum: "sum_list (map Suc Ls) = S - 249" .
  have len: "length Ls = Suc n"
    using n by (simp add: Ls_def)
  have "\<forall>L\<in>set Ls. 10 \<le> L \<and> L < 32000"
    using J(1,3) nJ S by (auto simp: Ls_def last_def)
  then have "scan_reaches m ptr (of_nat S) 8 (8 + sum_list (map Suc Ls)) (length Ls)"
    using runs J(3) S by (intro scan_runs) (simp_all add: sum)
  then have b: "scan_reaches m ptr (of_nat S) 8 (S - 241) (Suc n)"
    using S by (simp add: sum len)
  have "scan_reaches m ptr (of_nat S) (S - 241) (S - 241 + 241) 0"
    using S J(3) by (intro scan_skip) (auto simp: P)
  then have c: "scan_reaches m ptr (of_nat S) (S - 241) S 0"
    using S by simp
  have "scan_reaches m ptr (of_nat S) 0 S (0 + Suc n + 0)"
    using a by (intro scan_reaches_trans [OF scan_reaches_trans [OF _ b] c]) simp
  then show ?thesis by simp
qed

text \<open>
  A region of \<open>S \<le> 32249\<close> bytes whose 8 lowest and 242 highest bytes hold no test byte is
  initialised, and \<^verbatim>\<open>M100 C n\<close> then runs on it with \<open>1 \<le> n \<le> 228\<close> (the bytes written are
  \<open>1, \<dots>, n\<close>, none of them the test byte 229) and a stride \<open>(S - 258) div (n + 1)\<close> of at
  least 11, which leaves at least 10 test bytes between two writes, a run that the scan
  counts. Then the check finds \<open>n + 1\<close> blocks, prints that count and returns it, and it is
  not 0. So it is for \<^verbatim>\<open>M100 C3\<close> on the region of 2000 bytes, where the check returns 4.
\<close>

lemma wide_stride_counted:
  fixes S n :: nat
  assumes "END_OF_HEAP cfg s \<le> sp" and "S = unat (sp - END_OF_HEAP cfg s)" and "S \<le> 32249"
    and "\<forall>d<S. d < 8 \<or> S - 242 \<le> d \<longrightarrow> peek (ram s) (END_OF_HEAP cfg s) d \<noteq> TEST_BYTE"
    and "code_seen cmd CHR ''C''" and "tos_corrupt cmd = sp"
    and "1 \<le> n" and "n \<le> 228"
    and "11 \<le> (S - 258) div (n + 1)"
    and "m1 = fst (init_free_memory (ram s) (END_OF_HEAP cfg s) (sp - END_OF_HEAP cfg s))"
  shows "\<exists>m2 out res pre post.
           corrupt_free_memory cmd m1 (END_OF_HEAP cfg s) (of_nat n) = Some (Inr (m2, out))
           \<and> check_for_free_memory_corruption cfg (s\<lparr>ram := m2\<rparr>) sp title = Some res
           \<and> printed res = pre @ [Msg ''  block_found='', Val (int n + 1)] @ post
           \<and> returned res = of_nat n + 1 \<and> returned res \<noteq> 0"
proof -
  define ptr where "ptr = END_OF_HEAP cfg s"
  define J where "J = (S - 258) div Suc n"
  have J: "11 \<le> J" using assms(9) by (simp add: J_def)
  have "J * Suc n \<le> S - 258"
    unfolding J_def by (rule div_times_less_eq_dividend)
  then have nJ: "Suc n * J \<le> S - 258" by (simp only: mult.commute)
  have "1 * J \<le> Suc n * J" by (intro mult_le_mono1) simp
  with nJ J have S: "269 \<le> S" by linarith
  have sp: "sp = ptr + of_nat S"
    using assms(2) by (simp add: ptr_def)
  define m2 where "m2 = foldl (\<lambda>m k. m(ptr + 8 + of_nat k * of_nat J
                                       := ucast (of_nat k :: 16 word))) m1 [1..<Suc n]"
  obtain out where out: "corrupt_free_memory cmd m1 ptr (of_nat n) = Some (Inr (m2, out))"
    using corrupt_free_memory_writes [of cmd ptr S n m1] assms(3,5,6,8) S sp
    unfolding m2_def J_def by auto
  have "n * J \<le> Suc n * J" by (intro mult_le_mono1) simp
  with nJ assms(3) have small: "8 + n * J < 65536" by linarith
  have P: "peek m2 ptr d = TEST_BYTE
      \<longleftrightarrow> 8 \<le> d \<and> d < S - 242 \<and> \<not> (\<exists>k. 1 \<le> k \<and> k \<le> n \<and> d = 8 + k * J)" if "d < S" for d
  proof -
    have "peek m1 ptr d = TEST_BYTE \<longleftrightarrow> 8 \<le> d \<and> d < S - 242"
      unfolding assms(10) ptr_def [symmetric]
      using assms(2,3,4) S that unfolding ptr_def [symmetric] by (intro init_pool) auto
    moreover have "peek m2 ptr d = TEST_BYTE
           \<longleftrightarrow> peek m1 ptr d = TEST_BYTE \<and> \<not> (\<exists>k. 1 \<le> k \<and> k \<le> n \<and> d = 8 + k * J)"
      unfolding m2_def using small that assms(3,8) by (intro corrupted_peek) auto
    ultimately show ?thesis by blast
  qed
  have "scan_reaches m2 ptr (of_nat S) 0 S (Suc n)"
    using P J nJ assms(3,7) by (intro corrupted_scan [where J = J]) auto
  then obtain r where r: "check_scan m2 ptr (of_nat S) 0 \<lparr>block_cnt = 0, scan_out = [], examined = []\<rparr> = Some r"
    "block_cnt r = of_nat (Suc n)"
    using scan_reaches_end [of m2 ptr S "Suc n" "\<lparr>block_cnt = 0, scan_out = [], examined = []\<rparr>"] by auto
  define c :: "16 word" where "c = of_nat (Suc n)"
  have uc: "unat c = Suc n"
    unfolding c_def using assms(8) by (intro unat_of_nat_16) simp
  have cnt: "sint c = int n + 1"
    unfolding c_def using assms(8) by (subst sint_of_nat_16) auto
  have ne1: "c \<noteq> 1"
  proof
    assume "c = 1"
    then have "unat c = 1" by simp
    with uc assms(7) show False by simp
  qed
  have ne0: "c \<noteq> 0"
  proof
    assume "c = 0"
    then have "unat c = 0" by simp
    with uc show False by simp
  qed
  have c1: "c = of_nat n + 1"
    by (simp add: c_def)
  have rc: "block_cnt r = c"
    using r(2) by (simp only: c_def)
  obtain res pre post where res:
    "check_for_free_memory_corruption cfg (s\<lparr>ram := m2\<rparr>) sp title = Some res"
    "returned res = (if block_cnt r = 1 then 0 else if block_cnt r = 0 then - 1 else block_cnt r)"
    "printed res = pre @ [Msg ''  block_found='', Val (sint (block_cnt r))] @ post"
  proof -
    have eoh: "END_OF_HEAP cfg (s\<lparr>ram := m2\<rparr>) = ptr"
      by (simp add: END_OF_HEAP_def ptr_def)
    have 1: "\<not> sp < END_OF_HEAP cfg (s\<lparr>ram := m2\<rparr>)"
      using assms(1) unfolding eoh ptr_def by simp
    have 2: "check_scan (ram (s\<lparr>ram := m2\<rparr>)) (END_OF_HEAP cfg (s\<lparr>ram := m2\<rparr>))
            (sp - END_OF_HEAP cfg (s\<lparr>ram := m2\<rparr>)) 0
            \<lparr>block_cnt = 0, scan_out = [], examined = []\<rparr> = Some r"
      unfolding eoh sp using r(1) by simp
    from check_returns2 [OF 1 2, of title] that show ?thesis by blast
  qed
  from res(2) ne1 ne0 have "returned res = c"
    by (simp only: rc if_False)
  then have "returned res = of_nat n + 1" "returned res \<noteq> 0"
    using ne0 c1 by simp_all
  moreover from res(3) cnt
  have "printed res = pre @ [Msg ''  block_found='', Val (int n + 1)] @ post"
    by (simp only: rc)
  ultimately show ?thesis
    using out res(1) unfolding ptr_def by blast
qed

lemma scenario_C3_counted:
  "\<exists>m2 out res pre post.
     corrupt_free_memory scenario_M100_C3
       (fst (init_free_memory (ram scenario_machine) 0x0200 2000)) 0x0200 3 = Some (Inr (m2, out))
     \<and> check_for_free_memory_corruption scenario_config (scenario_machine\<lparr>ram := m2\<rparr>)
           0x09D0 ''M100 F '' = Some res
     \<and> printed res = pre @ [Msg ''  block_found='', Val 4] @ post
     \<and> returned res = 4"
proof -
  have "code_seen scenario_M100_C3 CHR ''C''" "tos_corrupt scenario_M100_C3 = 0x09D0"
    by (simp_all add: code_seen_def scenario_M100_C3_def)
  then have "\<exists>m2 out res pre post.
     corrupt_free_memory scenario_M100_C3
       (fst (init_free_memory (ram scenario_machine) 0x0200 2000)) 0x0200 3 = Some (Inr (m2, out))
     \<and> check_for_free_memory_corruption scenario_config (scenario_machine\<lparr>ram := m2\<rparr>)
           0x09D0 ''M100 F '' = Some res
     \<and> printed res = pre @ [Msg ''  block_found='', Val 4] @ post
     \<and> returned res = 4 \<and> returned res \<noteq> 0"
    using wide_stride_counted [of scenario_config scenario_machine "0x09D0" 2000
      scenario_M100_C3 3 "fst (init_free_memory (ram scenario_machine) 0x0200 2000)" "''M100 F ''"]
      scenario_margins
    by simp
  then show ?thesis by blast
qed

subsection \<open>Runs that the scan does not count\<close>

lemma count_test_bytes_peek:
  assumes "L < 32000" "\<forall>d<L. peek m ptr (i + d) = TEST_BYTE" "peek m ptr (i + L) \<noteq> TEST_BYTE"
  shows "count_test_bytes m (ptr + of_nat i) = of_nat L - 1"
  using assms by (intro count_test_bytes_run) (simp_all add: add.assoc peek_def)

text \<open>
  A run of at most 9 test bytes is passed byte by byte and no block is counted.
\<close>

lemma scan_short_run:
  assumes "\<forall>d<L. peek m ptr (i + d) = TEST_BYTE"
    and "peek m ptr (i + L) \<noteq> TEST_BYTE"
    and "L \<le> 9" "i + L \<le> N" "N < 32768"
  shows "scan_reaches m ptr (of_nat N) i (i + L) 0"
  using assms
proof (induction L arbitrary: i)
  case 0
  show ?case by (simp add: scan_reaches_refl)
next
  case (Suc L)
  have here: "peek m ptr i = TEST_BYTE"
    using Suc.prems(1) by (metis add.right_neutral zero_less_Suc)
  have "count_test_bytes m (ptr + of_nat i) = of_nat (Suc L) - 1"
    using Suc.prems by (intro count_test_bytes_peek) simp_all
  then have "count_test_bytes m (ptr + of_nat i) = of_nat L"
    by simp
  moreover have "sint (of_nat L :: 16 word) = int L"
    using Suc.prems(3) by (intro sint_of_nat_16) simp
  ultimately have "\<not> 8 <s count_test_bytes m (ptr + of_nat i)"
    using Suc.prems(3) by (simp add: word_sless_alt)
  with here have a: "scan_reaches m ptr (of_nat N) i (Suc i) 0"
    using Suc.prems by (intro scan_step_small) auto
  have "\<forall>d<L. peek m ptr (Suc i + d) = TEST_BYTE"
    using Suc.prems(1) by (metis Suc_less_eq add_Suc_shift)
  moreover have "peek m ptr (Suc i + L) \<noteq> TEST_BYTE"
    using Suc.prems(2) by simp
  ultimately have "scan_reaches m ptr (of_nat N) (Suc i) (Suc i + L) 0"
    using Suc.prems by (intro Suc.IH) auto
  with a show ?case
    using scan_reaches_trans by fastforce
qed

lemma nine_byte_pool_peek:
  "d < 65536 \<Longrightarrow> peek (ram nine_byte_pool) 0x0200 d = (if d < 9 then TEST_BYTE else 0)"
proof -
  assume "d < 65536"
  then have "(of_nat d :: 16 word) < of_nat 9 \<longleftrightarrow> d < 9"
    by (intro of_nat_less_16) simp_all
  then show ?thesis
    by (simp add: peek_def nine_byte_pool_def memset_read)
qed

text \<open>
  C2. The claim: the check returns 0 exactly when the scanned bytes hold one run of test
  bytes longer than 8, and \<open>- 1\<close> when they hold none. The region of 20 bytes at 0x0200
  holds one run of 9 test bytes and nothing else; the check counts no block and returns
  \<open>- 1\<close>, because \<^verbatim>\<open>count_test_bytes\<close> measures the run as 8.
\<close>

theorem nine_test_bytes_not_counted:
  "map_option returned
     (check_for_free_memory_corruption scenario_config nine_byte_pool 0x0214 ''M100 F '')
   = Some (- 1)"
proof -
  have "scan_reaches (ram nine_byte_pool) 0x0200 (of_nat 20) 0 (0 + 9) 0"
    by (rule scan_short_run) (simp_all add: nine_byte_pool_peek TEST_BYTE_def)
  then have a: "scan_reaches (ram nine_byte_pool) 0x0200 (of_nat 20) 0 9 0"
    by simp
  have "scan_reaches (ram nine_byte_pool) 0x0200 (of_nat 20) 9 (9 + 11) 0"
    by (rule scan_skip) (simp_all add: nine_byte_pool_peek TEST_BYTE_def)
  then have b: "scan_reaches (ram nine_byte_pool) 0x0200 (of_nat 20) 9 20 0"
    by simp
  have "scan_reaches (ram nine_byte_pool) 0x0200 (of_nat 20) 0 20 (0 + 0)"
    by (rule scan_reaches_trans [OF a b])
  then obtain r where r: "check_scan (ram nine_byte_pool) 0x0200 (of_nat 20) 0
       \<lparr>block_cnt = 0, scan_out = [], examined = []\<rparr> = Some r" "block_cnt r = 0"
    using scan_reaches_end [of "ram nine_byte_pool" "0x0200" 20 "0 + 0"
        "\<lparr>block_cnt = 0, scan_out = [], examined = []\<rparr>"] by auto
  have eoh: "END_OF_HEAP scenario_config nine_byte_pool = 0x0200"
    by (simp add: END_OF_HEAP_def scenario_config_def nine_byte_pool_def)
  have "\<exists>res. check_for_free_memory_corruption scenario_config nine_byte_pool 0x0214 ''M100 F ''
            = Some res
         \<and> returned res = (if block_cnt r = 1 then 0
                            else if block_cnt r = 0 then - 1 else block_cnt r)"
    using r(1) by (intro check_returns) (simp_all add: eoh)
  with r(2) show ?thesis by auto
qed

theorem nine_test_bytes_not_counted_witness:
  "\<exists>res. check_for_free_memory_corruption scenario_config nine_byte_pool 0x0214 ''M100 F ''
            = Some res
         \<and> returned res \<noteq> 0"
  using nine_test_bytes_not_counted by auto

text \<open>
  The byte that the corruptor writes for the index 229 is the test byte itself.
\<close>

lemma written_byte_229: "(ucast (229 :: 16 word) :: byte) = TEST_BYTE"
  by (simp add: TEST_BYTE_def)

lemma stride_ten_pool:
  "\<exists>m2 out.
     corrupt_free_memory small_M100_C2
       (fst (init_free_memory (ram scenario_machine) 0x0200 288)) 0x0200 2 = Some (Inr (m2, out))
     \<and> (\<forall>d<288. peek m2 0x0200 d = TEST_BYTE \<longleftrightarrow> 8 \<le> d \<and> d < 46 \<and> d \<noteq> 18 \<and> d \<noteq> 28)"
proof -
  define m1 where "m1 = fst (init_free_memory (ram scenario_machine) 0x0200 288)"
  define m2 where "m2 = foldl (\<lambda>m k. m(0x0200 + 8 + of_nat k * of_nat 10
                                       := ucast (of_nat k :: 16 word))) m1 [1..<Suc 2]"
  have "code_seen small_M100_C2 CHR ''C''" "tos_corrupt small_M100_C2 = 0x0200 + of_nat 288"
    by (simp_all add: code_seen_def small_M100_C2_def)
  then obtain out where out: "corrupt_free_memory small_M100_C2 m1 0x0200 2 = Some (Inr (m2, out))"
    using corrupt_free_memory_writes [of small_M100_C2 "0x0200" 288 2 m1]
    unfolding m2_def by auto
  have P: "peek m2 0x0200 d = TEST_BYTE \<longleftrightarrow> 8 \<le> d \<and> d < 46 \<and> d \<noteq> 18 \<and> d \<noteq> 28"
    if "d < 288" for d
  proof -
    have "peek (fst (init_free_memory (ram scenario_machine) 0x0200 (of_nat 288))) 0x0200 d
           = (if 8 \<le> d \<and> d < 288 - 242 then TEST_BYTE else peek (ram scenario_machine) 0x0200 d)"
      using that by (intro init_region) simp_all
    then have 1: "peek m1 0x0200 d = TEST_BYTE \<longleftrightarrow> 8 \<le> d \<and> d < 46"
      by (simp add: m1_def peek_def scenario_machine_def TEST_BYTE_def)
    have 2: "peek m2 0x0200 d = TEST_BYTE
           \<longleftrightarrow> peek m1 0x0200 d = TEST_BYTE \<and> \<not> (\<exists>k. 1 \<le> k \<and> k \<le> 2 \<and> d = 8 + k * 10)"
      unfolding m2_def using that by (intro corrupted_peek) auto
    have 3: "(\<exists>k. 1 \<le> k \<and> k \<le> 2 \<and> d = 8 + k * 10) \<longleftrightarrow> d = 18 \<or> d = 28"
    proof
      assume "\<exists>k. 1 \<le> k \<and> k \<le> 2 \<and> d = 8 + k * 10"
      then obtain k :: nat where k: "1 \<le> k" "k \<le> 2" "d = 8 + k * 10" by blast
      then have "k = 1 \<or> k = 2" by linarith
      with k(3) show "d = 18 \<or> d = 28" by auto
    next
      assume "d = 18 \<or> d = 28"
      then show "\<exists>k. 1 \<le> k \<and> k \<le> 2 \<and> d = 8 + k * 10"
      proof
        assume "d = 18"
        then show ?thesis by (intro exI [of _ 1]) simp
      next
        assume "d = 28"
        then show ?thesis by (intro exI [of _ 2]) simp
      qed
    qed
    from 1 2 3 show ?thesis by auto
  qed
  from out P show ?thesis
    unfolding m1_def by blast
qed

text \<open>
  C6. The claim: after \<open>n\<close> writes of the corruptor into an initialised pool, with runs of
  test bytes longer than 8 between the writes, the check finds \<open>n + 1\<close> blocks and returns
  that count. On the region of 288 bytes, \<^verbatim>\<open>M100 C2\<close> writes at the places 18 and 28 and
  leaves runs of 10, 9 and 17 test bytes, all longer than 8; the check finds two blocks and
  returns 2, not 3, because \<^verbatim>\<open>count_test_bytes\<close> measures the run of 9 as 8.
\<close>

theorem nine_bytes_between_writes:
  "\<exists>m2 out.
     corrupt_free_memory small_M100_C2
       (fst (init_free_memory (ram scenario_machine) 0x0200 288)) 0x0200 2 = Some (Inr (m2, out))
     \<and> runs_at m2 0x0200 8 [10, 9, 17]
     \<and> map_option returned
         (check_for_free_memory_corruption scenario_config (scenario_machine\<lparr>ram := m2\<rparr>)
            0x0320 ''M100 F '') = Some 2"
proof -
  from stride_ten_pool obtain m2 out where
    out: "corrupt_free_memory small_M100_C2
       (fst (init_free_memory (ram scenario_machine) 0x0200 288)) 0x0200 2 = Some (Inr (m2, out))"
    and P: "\<forall>d<288. peek m2 0x0200 d = TEST_BYTE \<longleftrightarrow> 8 \<le> d \<and> d < 46 \<and> d \<noteq> 18 \<and> d \<noteq> 28"
    by blast
  have runs: "runs_at m2 0x0200 8 [10, 9, 17]"
    using P by simp
  have "scan_reaches m2 0x0200 (of_nat 288) 0 (0 + 8) 0"
    using P by (intro scan_skip) simp_all
  then have a: "scan_reaches m2 0x0200 (of_nat 288) 0 8 0" by simp
  have "scan_reaches m2 0x0200 (of_nat 288) 8 (8 + 10) 1"
    using P by (intro scan_block) simp_all
  then have b: "scan_reaches m2 0x0200 (of_nat 288) 8 18 1" by simp
  have "scan_reaches m2 0x0200 (of_nat 288) 18 (18 + 1) 0"
    using P by (intro scan_skip) simp_all
  then have c: "scan_reaches m2 0x0200 (of_nat 288) 18 19 0" by simp
  have "scan_reaches m2 0x0200 (of_nat 288) 19 (19 + 9) 0"
    using P by (intro scan_short_run) simp_all
  then have d: "scan_reaches m2 0x0200 (of_nat 288) 19 28 0" by simp
  have "scan_reaches m2 0x0200 (of_nat 288) 28 (28 + 1) 0"
    using P by (intro scan_skip) simp_all
  then have e: "scan_reaches m2 0x0200 (of_nat 288) 28 29 0" by simp
  have "scan_reaches m2 0x0200 (of_nat 288) 29 (29 + 17) 1"
    using P by (intro scan_block) simp_all
  then have f: "scan_reaches m2 0x0200 (of_nat 288) 29 46 1" by simp
  have "scan_reaches m2 0x0200 (of_nat 288) 46 (46 + 242) 0"
    using P by (intro scan_skip) simp_all
  then have g: "scan_reaches m2 0x0200 (of_nat 288) 46 288 0" by simp
  have "scan_reaches m2 0x0200 (of_nat 288) 0 288 (0 + 1 + 0 + 0 + 0 + 1 + 0)"
    by (intro scan_reaches_trans [OF _ g] scan_reaches_trans [OF _ f]
          scan_reaches_trans [OF _ e] scan_reaches_trans [OF _ d]
          scan_reaches_trans [OF _ c] scan_reaches_trans [OF a b])
  then obtain r where r: "check_scan m2 0x0200 (of_nat 288) 0
       \<lparr>block_cnt = 0, scan_out = [], examined = []\<rparr> = Some r" "block_cnt r = 2"
    using scan_reaches_end [of m2 "0x0200" 288 "0 + 1 + 0 + 0 + 0 + 1 + 0"
        "\<lparr>block_cnt = 0, scan_out = [], examined = []\<rparr>"] by auto
  have eoh: "END_OF_HEAP scenario_config (scenario_machine\<lparr>ram := m2\<rparr>) = 0x0200"
    by (simp add: END_OF_HEAP_def scenario_config_def scenario_machine_def)
  have "\<exists>res. check_for_free_memory_corruption scenario_config (scenario_machine\<lparr>ram := m2\<rparr>)
              0x0320 ''M100 F '' = Some res
         \<and> returned res = (if block_cnt r = 1 then 0
                            else if block_cnt r = 0 then - 1 else block_cnt r)"
    using r(1) by (intro check_returns) (simp_all add: eoh)
  with r(2) have "map_option returned
         (check_for_free_memory_corruption scenario_config (scenario_machine\<lparr>ram := m2\<rparr>)
            0x0320 ''M100 F '') = Some 2"
    by auto
  with out runs show ?thesis by blast
qed

theorem nine_bytes_between_writes_witness:
  "\<exists>m2 out res.
     corrupt_free_memory small_M100_C2
       (fst (init_free_memory (ram scenario_machine) 0x0200 288)) 0x0200 2 = Some (Inr (m2, out))
     \<and> check_for_free_memory_corruption scenario_config (scenario_machine\<lparr>ram := m2\<rparr>)
            0x0320 ''M100 F '' = Some res
     \<and> returned res \<noteq> 3"
  using nine_bytes_between_writes by auto

subsection \<open>The divisor of the corruptor\<close>

lemma plus_one_zero: "(x :: 16 word) + 1 = 0 \<longleftrightarrow> x = 0xFFFF"
proof
  assume "x + 1 = 0"
  then have "x = - 1" by (simp add: eq_neg_iff_add_eq_0)
  then show "x = 0xFFFF" by simp
next
  assume "x = 0xFFFF"
  then show "x + 1 = 0" by simp
qed

lemma below_max: "(x :: 16 word) \<noteq> 0xFFFF \<longleftrightarrow> x < 0xFFFF"
proof -
  have "unat x < 65536" using unsigned_less [of x, where ?'a = nat] by simp
  moreover have "x = 0xFFFF \<longleftrightarrow> unat x = 65535"
    by (simp add: word_unat_eq_iff)
  ultimately show ?thesis
    by (auto simp: word_less_nat_alt)
qed

text \<open>
  C10. When the command has the letter C: the divisor \<open>size + 1\<close> is 0 exactly for
  \<open>size = 65535\<close>, the division by zero is reached exactly for that value, and for every
  smaller value the corruptor returns.
\<close>

theorem corrupt_divisor:
  assumes "code_seen cmd CHR ''C''"
  shows "(size' + 1 = 0 \<longleftrightarrow> size' = 0xFFFF)
       \<and> (corrupt_free_memory cmd m ptr size' = Some (Inl DivisionByZero) \<longleftrightarrow> size' = 0xFFFF)
       \<and> (size' < 0xFFFF \<longrightarrow> (\<exists>r. corrupt_free_memory cmd m ptr size' = Some (Inr r)))"
proof -
  have ok: "\<exists>r. corrupt_free_memory cmd m ptr size' = Some (Inr r)" if "size' < 0xFFFF"
  proof -
    have nz: "size' + 1 \<noteq> 0"
      using that by (simp add: plus_one_zero)
    have "unat (1 :: 16 word) \<le> Suc (unat size')" by simp
    from corrupt_loop_eq [OF that this]
    obtain r where "corrupt_loop m (ptr + 8)
        ((tos_corrupt cmd - (ptr + 8) - 250) div (size' + 1)) size' 1
        [Msg (''Corrupting free memory block.'' @ nl), Eol] = Some r"
      by blast
    then show ?thesis
      using assms nz by (cases r) (simp add: corrupt_free_memory_def Let_def)
  qed
  have "corrupt_free_memory cmd m ptr size' = Some (Inl DivisionByZero) \<longleftrightarrow> size' = 0xFFFF"
  proof (cases "size' = 0xFFFF")
    case True
    then show ?thesis
      using assms by (simp add: corrupt_free_memory_def)
  next
    case False
    then have "size' < 0xFFFF" by (simp add: below_max)
    from ok [OF this] False show ?thesis by auto
  qed
  with ok show ?thesis
    by (simp add: plus_one_zero)
qed

theorem corrupt_divisor_witness:
  "(3 :: 16 word) + 1 \<noteq> 0
   \<and> (\<exists>r. corrupt_free_memory scenario_M100_C3 (\<lambda>a. 0) 0x0200 3 = Some (Inr r))
   \<and> corrupt_free_memory scenario_M100_C3 (\<lambda>a. 0) 0x0200 0xFFFF = Some (Inl DivisionByZero)"
proof -
  have c: "code_seen scenario_M100_C3 CHR ''C''"
    by (simp add: code_seen_def scenario_M100_C3_def)
  show ?thesis
    using corrupt_divisor [OF c, of 3 "\<lambda>a. 0" "0x0200"]
      corrupt_divisor [OF c, of "0xFFFF" "\<lambda>a. 0" "0x0200"]
    by simp
qed

subsection \<open>The rows of the dump\<close>

lemma low4: "(w :: 16 word) AND 0xF = w mod 16"
  using word_mod_2p_is_mask [of 4 w] by (simp add: mask_eq_exp_minus_1)

lemma and_ffff: "(w :: 16 word) AND 0xFFFF = w"
proof -
  have "(0xFFFF :: 16 word) = - 1" by simp
  then show ?thesis by (simp only: and.right_neutral)
qed

lemma split4: "(w AND 0xFFF0) + (w AND 0xF) = (w :: 16 word)"
proof -
  have "(w AND 0xFFF0) AND (w AND 0xF) = w AND (0xFFF0 AND 0xF)"
    by (simp add: ac_simps)
  then have z: "(w AND 0xFFF0) AND (w AND 0xF) = 0"
    by simp
  have "(w AND 0xFFF0) OR (w AND 0xF) = w AND (0xFFF0 OR 0xF)"
    by (simp only: bit.conj_disj_distrib)
  then have o: "(w AND 0xFFF0) OR (w AND 0xF) = w"
    by (simp add: and_ffff)
  from word_plus_and_or [of "w AND 0xFFF0" "w AND 0xF"] show ?thesis
    by (simp only: z o add_0)
qed

lemma or4: "(w :: 16 word) OR 0xF = (w AND 0xFFF0) + 0xF"
proof -
  have z: "(w AND 0xFFF0) AND 0xF = 0"
    by (simp add: and.assoc)
  have "(w AND 0xFFF0) OR 0xF = (w OR 0xF) AND (0xFFF0 OR 0xF)"
    by (simp only: bit.disj_conj_distrib2)
  then have o: "(w AND 0xFFF0) OR 0xF = w OR 0xF"
    by (simp add: and_ffff)
  from word_plus_and_or [of "w AND 0xFFF0" "0xF"] show ?thesis
    by (simp only: z o add_0)
qed

lemma unat_align_down: "unat ((w :: 16 word) AND 0xFFF0) = 16 * (unat w div 16)"
proof -
  have l: "unat (w AND 0xF) = unat w mod 16"
    by (simp add: low4 unat_mod)
  have "w AND 0xFFF0 = w - (w AND 0xF)"
    using split4 [of w] by (simp add: algebra_simps)
  moreover have "w AND 0xF \<le> w"
    by (simp add: word_and_le2)
  ultimately have "unat (w AND 0xFFF0) = unat w - unat (w AND 0xF)"
    by (simp add: unat_sub)
  with l show ?thesis
    by (simp add: minus_mod_eq_mult_div)
qed

lemma unat_align_up: "unat ((w :: 16 word) OR 0xF) = 16 * (unat w div 16) + 15"
proof -
  have "unat w < 65536" using unsigned_less [of w, where ?'a = nat] by simp
  then have "unat w div 16 \<le> 65535 div 16"
    by (intro div_le_mono) simp
  then have "16 * (unat w div 16) < 65521"
    by simp
  then have "unat (w AND 0xFFF0) + unat (0xF :: 16 word) < 2 ^ LENGTH(16)"
    by (simp add: unat_align_down)
  then have "unat ((w AND 0xFFF0) + 0xF) = unat (w AND 0xFFF0) + unat (0xF :: 16 word)"
    by (simp only: unat_add_lem)
  then show ?thesis
    by (simp add: or4 unat_align_down)
qed

lemma dump_rows_eq:
  assumes "unat ptr + 16 * K = Suc (unat sp)" "unat sp < 65535"
  shows "dump_rows cfg m ptr sp out =
           Some (out @ concat (map (\<lambda>k. dump_row cfg m (ptr + 16 * of_nat k)) [0..<K]))"
  using assms(1)
proof (induction K arbitrary: ptr out)
  case 0
  then have "\<not> ptr < sp" by (simp add: word_less_nat_alt)
  then show ?case
    by (subst dump_rows.simps) simp
next
  case (Suc K)
  then have lt: "ptr < sp" by (simp add: word_less_nat_alt)
  have u: "unat (ptr + 16) = unat ptr + 16"
    using Suc.prems assms(2) by (simp add: unat_word_ariths)
  have l: "[0..<Suc K] = 0 # map Suc [0..<K]"
    by (simp add: upt_conv_Cons map_Suc_upt del: upt_Suc)
  have "dump_rows cfg m ptr sp out = dump_rows cfg m (ptr + 16) sp (out @ dump_row cfg m ptr)"
    using lt by (subst dump_rows.simps) simp
  also have "\<dots> = Some ((out @ dump_row cfg m ptr)
                      @ concat (map (\<lambda>k. dump_row cfg m (ptr + 16 + 16 * of_nat k)) [0..<K]))"
    using Suc.prems u by (intro Suc.IH) simp
  also have "(out @ dump_row cfg m ptr)
               @ concat (map (\<lambda>k. dump_row cfg m (ptr + 16 + 16 * of_nat k)) [0..<K])
             = out @ concat (map (\<lambda>k. dump_row cfg m (ptr + 16 * of_nat k)) [0..<Suc K])"
    unfolding l by (simp add: comp_def algebra_simps)
  finally show ?case .
qed

lemma in_row: "16 * n \<le> A \<and> A < 16 * n + 16 \<longleftrightarrow> n = A div (16 :: nat)"
proof -
  have "n \<le> A div 16 \<longleftrightarrow> n * 16 \<le> A"
    by (rule less_eq_div_iff_mult_less_eq) simp
  moreover have "A div 16 < Suc n \<longleftrightarrow> A < Suc n * 16"
    by (rule div_less_iff_less_mult) simp
  ultimately show ?thesis
    by auto
qed

lemma row_covers:
  fixes a r :: addr
  assumes "unat r \<le> 65504"
  shows "a - r < 16 \<longleftrightarrow> unat r \<le> unat a \<and> unat a < unat r + 16"
proof -
  have a: "unat a < 65536" using unsigned_less [of a, where ?'a = nat] by simp
  have "unat (a - r) = (if unat r \<le> unat a then unat a - unat r else unat a + 65536 - unat r)"
    using unat_sub_if_size [of a r] by (simp add: word_size)
  then show ?thesis
    using assms a by (auto simp: word_less_nat_alt)
qed

text \<open>
  C7, as amended. For every pair of addresses \<open>start \<le> end\<close> with \<open>end\<close> below 0xFFF0,
  the dump prints exactly \<open>aligned_rows start end\<close> rows, the rows of the addresses
  \<open>alignedStart + 16 * k\<close> in this order, and every address from \<open>start\<close> to \<open>end\<close> is
  among the 16 addresses of exactly one of these rows.
\<close>

theorem dump_rows_count:
  assumes "start \<le> end'" and "end' < 0xFFF0"
  shows "dump_free_memory cfg m start end' =
           Some (concat (map (\<lambda>k. dump_row cfg m ((start AND 0xFFF0) + 16 * of_nat k))
                          [0..<aligned_rows start end']))
         \<and> (\<forall>a. start \<le> a \<and> a \<le> end' \<longrightarrow>
               (\<exists>!k. k < aligned_rows start end'
                     \<and> a - ((start AND 0xFFF0) + 16 * of_nat k) < 16))"
proof -
  define p q where "p = unat start div 16" and "q = unat end' div 16"
  define K where "K = aligned_rows start end'"
  have se: "unat start \<le> unat end'"
    using assms(1) by (simp add: word_le_nat_alt)
  then have pq: "p \<le> q"
    unfolding p_def q_def by (rule div_le_mono)
  have "unat end' < 65520"
    using assms(2) by (simp add: word_less_nat_alt)
  then have "unat end' div 16 \<le> 65519 div 16"
    by (intro div_le_mono) simp
  then have q: "q \<le> 4094"
    unfolding q_def by simp
  have aS: "unat (start AND 0xFFF0) = 16 * p"
    by (simp add: unat_align_down p_def)
  have aE: "unat (end' OR 0xF) = 16 * q + 15"
    by (simp add: unat_align_up q_def)
  have "16 * q + 15 - 16 * p + 15 = 30 + (q - p) * 16"
    using pq by simp
  moreover have "(30 + (q - p) * 16) div 16 = (q - p) + 30 div 16"
    by (rule div_mult_self1) simp
  ultimately have K: "K = Suc (q - p)"
    unfolding K_def aligned_rows_def aS aE by simp
  have "dump_rows cfg m (start AND 0xFFF0) (end' OR 0xF) [] =
          Some ([] @ concat (map (\<lambda>k. dump_row cfg m ((start AND 0xFFF0) + 16 * of_nat k)) [0..<K]))"
    using pq q by (intro dump_rows_eq) (simp_all add: aS aE K)
  then have first: "dump_free_memory cfg m start end' =
           Some (concat (map (\<lambda>k. dump_row cfg m ((start AND 0xFFF0) + 16 * of_nat k)) [0..<K]))"
    by (simp add: dump_free_memory_def)
  have row: "unat ((start AND 0xFFF0) + 16 * of_nat k) = 16 * (p + k)" if "k < K" for k
  proof -
    have "16 * k < 65536" using that K q by simp
    then have "unat (16 * of_nat k :: 16 word) = 16 * k"
      using unat_of_nat_16 [of "16 * k"] by simp
    moreover have "16 * p + 16 * k < 65536"
      using that K q pq by simp
    ultimately show ?thesis
      using aS by (simp add: unat_word_ariths)
  qed
  have covers: "a - ((start AND 0xFFF0) + 16 * of_nat k) < 16 \<longleftrightarrow> p + k = unat a div 16"
    if "k < K" for k and a :: addr
  proof -
    have "16 * (p + k) \<le> 65504" using that K q pq by simp
    then have "a - ((start AND 0xFFF0) + 16 * of_nat k) < 16
                 \<longleftrightarrow> 16 * (p + k) \<le> unat a \<and> unat a < 16 * (p + k) + 16"
      using row [OF that] row_covers [of "(start AND 0xFFF0) + 16 * of_nat k" a] by simp
    also have "\<dots> \<longleftrightarrow> p + k = unat a div 16"
      by (rule in_row)
    finally show ?thesis .
  qed
  have second: "\<exists>!k. k < K \<and> a - ((start AND 0xFFF0) + 16 * of_nat k) < 16"
    if "start \<le> a \<and> a \<le> end'" for a
  proof -
    from that have "unat start \<le> unat a" "unat a \<le> unat end'"
      by (simp_all add: word_le_nat_alt)
    then have lo: "p \<le> unat a div 16" and hi: "unat a div 16 \<le> q"
      unfolding p_def q_def by (simp_all add: div_le_mono)
    define k0 where "k0 = unat a div 16 - p"
    have k0: "k0 < K" "p + k0 = unat a div 16"
      using lo hi K by (simp_all add: k0_def)
    show ?thesis
    proof (rule ex1I [of _ k0])
      show "k0 < K \<and> a - ((start AND 0xFFF0) + 16 * of_nat k0) < 16"
        using k0 covers [of k0 a] by simp
    next
      fix k assume "k < K \<and> a - ((start AND 0xFFF0) + 16 * of_nat k) < 16"
      then have "p + k = unat a div 16"
        using covers [of k a] by simp
      with k0(2) show "k = k0" by simp
    qed
  qed
  from first second show ?thesis
    unfolding K_def by blast
qed

theorem dump_rows_count_witness:
  "dump_free_memory scenario_config (\<lambda>a. 0) 0x0205 0x0231 =
     Some (concat (map (\<lambda>k. dump_row scenario_config (\<lambda>a. 0) ((0x0205 AND 0xFFF0) + 16 * of_nat k))
                    [0..<aligned_rows 0x0205 0x0231]))
   \<and> (\<exists>!k. k < aligned_rows 0x0205 0x0231
           \<and> (0x0217 :: addr) - ((0x0205 AND 0xFFF0) + 16 * of_nat k) < 16)
   \<and> aligned_rows 0x0205 0x0231 = 4"
proof -
  have r: "aligned_rows 0x0205 0x0231 = 4"
    by (simp add: aligned_rows_def)
  have h1: "(0x0205 :: addr) \<le> 0x0231" and h2: "(0x0231 :: addr) < 0xFFF0"
    and h3: "(0x0205 :: addr) \<le> 0x0217 \<and> (0x0217 :: addr) \<le> 0x0231"
    by simp_all
  note t = dump_rows_count [OF h1 h2, of scenario_config "\<lambda>a. 0"]
  from t have A: "dump_free_memory scenario_config (\<lambda>a. 0) 0x0205 0x0231 =
     Some (concat (map (\<lambda>k. dump_row scenario_config (\<lambda>a. 0) ((0x0205 AND 0xFFF0) + 16 * of_nat k))
                    [0..<aligned_rows 0x0205 0x0231]))"
    by (rule conjunct1)
  from t have "\<forall>a :: addr. 0x0205 \<le> a \<and> a \<le> 0x0231 \<longrightarrow>
               (\<exists>!k. k < aligned_rows 0x0205 0x0231
                     \<and> a - ((0x0205 AND 0xFFF0) + 16 * of_nat k) < 16)"
    by (rule conjunct2)
  then have B: "\<exists>!k. k < aligned_rows 0x0205 0x0231
           \<and> (0x0217 :: addr) - ((0x0205 AND 0xFFF0) + 16 * of_nat k) < 16"
    using h3 by blast
  from A B r show ?thesis
    by (intro conjI)
qed

lemma add16_mod16: "((ptr :: 16 word) + 16) mod 16 = ptr mod 16"
proof -
  have "unat ((ptr + 16) mod 16) = (unat ptr + 16) mod 65536 mod 16"
    by (simp add: unat_mod unat_word_ariths)
  also have "\<dots> = (unat ptr + 16) mod 16"
    by (rule mod_mod_cancel) simp
  also have "\<dots> = unat (ptr mod 16)"
    by (simp add: unat_mod)
  finally show ?thesis
    by (simp only: word_unat_eq_iff)
qed

lemma add16_low4: "((ptr :: 16 word) + 16) AND 0xF = ptr AND 0xF"
  by (simp only: low4 add16_mod16)

lemma dump_rows_top:
  assumes "dump_rows cfg m ptr sp out = Some r"
  shows "sp = 0xFFFF \<longrightarrow> ptr AND 0xF = 0 \<longrightarrow> False"
proof (rule dump_rows.raw_induct
    [where P = "\<lambda>cfg m ptr sp out r. sp = 0xFFFF \<longrightarrow> ptr AND 0xF = 0 \<longrightarrow> False", OF _ assms])
  fix f :: "config \<Rightarrow> mem \<Rightarrow> addr \<Rightarrow> addr \<Rightarrow> serial list \<Rightarrow> serial list option"
  fix cfg m and ptr sp :: addr and out r
  assume IH: "\<And>cfg m ptr sp out y. f cfg m ptr sp out = Some y
                 \<Longrightarrow> sp = 0xFFFF \<longrightarrow> ptr AND 0xF = 0 \<longrightarrow> False"
    and eq: "(if ptr < sp then f cfg m (ptr + 16) sp (out @ dump_row cfg m ptr) else Some out)
               = Some r"
  show "sp = 0xFFFF \<longrightarrow> ptr AND 0xF = 0 \<longrightarrow> False"
  proof (intro impI)
    assume sp: "sp = 0xFFFF" and al: "ptr AND 0xF = 0"
    have "ptr \<noteq> 0xFFFF"
    proof
      assume "ptr = 0xFFFF"
      with al show False by simp
    qed
    then have "ptr < sp"
      using sp by (simp add: below_max)
    with eq have "f cfg m (ptr + 16) sp (out @ dump_row cfg m ptr) = Some r"
      by simp
    moreover have "(ptr + 16) AND 0xF = 0"
      using al by (simp only: add16_low4)
    ultimately show False
      using IH sp by blast
  qed
qed

text \<open>
  C7, as stated, fails in the top row of the address space: with \<open>end\<close> from 0xFFF0 on,
  the aligned end is 0xFFFF, the aligned \<^verbatim>\<open>ptr\<close> wraps to 0 after the row at 0xFFF0 and
  stays below the end for ever. The dump from 0xFFF0 to 0xFFF5 never returns.
\<close>

theorem dump_top_row_counterexample:
  "dump_free_memory scenario_config (\<lambda>a. 0) 0xFFF0 0xFFF5 = None"
proof (cases "dump_free_memory scenario_config (\<lambda>a. 0) 0xFFF0 0xFFF5")
  case None
  then show ?thesis .
next
  case (Some r)
  then have "dump_rows scenario_config (\<lambda>a. 0) 0xFFF0 0xFFFF [] = Some r"
    by (simp add: dump_free_memory_def)
  from dump_rows_top [OF this] have False
    by simp
  then show ?thesis ..
qed

subsection \<open>The stack below the heap\<close>

lemma check_scan_examined_mono:
  assumes "check_scan m ptr n i st = Some r"
  shows "length (examined st) \<le> length (examined r)"
proof (rule check_scan.raw_induct
    [where P = "\<lambda>m ptr n i st r. length (examined st) \<le> length (examined r)", OF _ assms])
  fix f :: "mem \<Rightarrow> addr \<Rightarrow> 16 word \<Rightarrow> 16 word \<Rightarrow> scan \<Rightarrow> scan option"
  fix m ptr n i and st r :: scan
  assume IH: "\<And>m ptr n i st r. f m ptr n i st = Some r
                 \<Longrightarrow> length (examined st) \<le> length (examined r)"
    and eq: "(if i <s n
      then let st1 = st\<lparr>examined := examined st @ [ptr + i]\<rparr>
           in if m (ptr + i) = TEST_BYTE
              then let j = count_test_bytes m (ptr + i)
                   in if 8 <s j
                      then let cnt = block_cnt st1 + 1
                           in f m ptr n (i + j + 1)
                               (st1\<lparr>block_cnt := cnt,
                                    scan_out := scan_out st1 @
                                      [Msg '' ('', Val (sint cnt), Msg '') found='', Val (sint j),
                                       Msg ''   '']\<rparr>)
                      else f m ptr n (i + 1) st1
              else f m ptr n (i + 1) st1
      else Some st) = Some r"
  show "length (examined st) \<le> length (examined r)"
  proof (cases "i <s n")
    case False
    with eq show ?thesis by simp
  next
    case True
    with eq obtain st' where "f m ptr n (if m (ptr + i) = TEST_BYTE \<and> 8 <s count_test_bytes m (ptr + i)
                                          then i + count_test_bytes m (ptr + i) + 1 else i + 1) st' = Some r"
      "length (examined st') = Suc (length (examined st))"
      by (auto simp: Let_def split: if_splits)
    with IH show ?thesis by fastforce
  qed
qed

lemma sint_negative_distance:
  fixes sp ptr :: addr
  assumes "sp < ptr" and "unat (ptr - sp) \<le> 32768"
  shows "sint (sp - ptr) < 0"
proof -
  define D where "D = unat (ptr - sp)"
  have "ptr - sp \<noteq> 0" using assms(1) by simp
  then have D0: "0 < D" unfolding D_def by (simp add: unat_gt_0)
  have D: "D \<le> 32768" using assms(2) by (simp add: D_def)
  have "sp - ptr = - (ptr - sp)" by simp
  also have "\<dots> = - of_nat D" by (simp add: D_def)
  also have "\<dots> = of_int (- int D)" by simp
  finally have "sint (sp - ptr) = signed_take_bit 15 (- int D)"
    by (simp only: sint_sbintrunc') simp
  also have "\<dots> = - int D"
    using D0 D by (intro signed_take_bit_int_eq_self) auto
  finally show ?thesis using D0 by simp
qed

lemma forensic_dump:
  "M100_dump_routine cfg m title 0x1B80 0x21FF =
     Some ([Msg title, Eol]
           @ concat (map (\<lambda>k. dump_row cfg m (0x1B80 + 16 * of_nat k)) [0..<104]))"
proof -
  have r: "aligned_rows 0x1B80 0x21FF = 104"
    by (simp add: aligned_rows_def)
  have "(0x1B80 :: addr) \<le> 0x21FF" "(0x21FF :: addr) < 0xFFF0"
    by simp_all
  from dump_rows_count [OF this, of cfg m]
  have "dump_free_memory cfg m 0x1B80 0x21FF =
          Some (concat (map (\<lambda>k. dump_row cfg m ((0x1B80 AND 0xFFF0) + 16 * of_nat k))
                         [0..<aligned_rows 0x1B80 0x21FF]))"
    by (rule conjunct1)
  then have "dump_free_memory cfg m 0x1B80 0x21FF =
          Some (concat (map (\<lambda>k. dump_row cfg m (0x1B80 + 16 * of_nat k)) [0..<104]))"
    unfolding r by simp
  then show ?thesis
    by (simp add: M100_dump_routine_def)
qed

lemma check_scanned:
  assumes "check_scan (ram s) (END_OF_HEAP cfg s) (tos - END_OF_HEAP cfg s) 0
             \<lparr>block_cnt = 0, scan_out = [], examined = []\<rparr> = Some r"
  shows "\<exists>res. check_for_free_memory_corruption cfg s tos title = Some res
               \<and> scanned res = examined r"
  using assms by (simp add: check_for_free_memory_corruption_def Let_def forensic_dump)

text \<open>
  C5, as amended. For every region whose end lies below its start by at most 32768 bytes,
  the check prints \<^verbatim>\<open>" sp < Heap "\<close> and the dump of 0x1B80..0x21FF right after its
  header; the scan that follows reads no byte and prints nothing, and the check returns
  \<open>- 1\<close> by its ordinary end.
\<close>

theorem collision_check:
  assumes "sp < END_OF_HEAP cfg s" and "unat (END_OF_HEAP cfg s - sp) \<le> 32768"
  shows "\<exists>res d.
           M100_dump_routine cfg (ram s) (''   Memory corruption detected with sp<Heap'' @ nl)
             0x1B80 0x21FF = Some d
         \<and> check_for_free_memory_corruption cfg s sp title = Some res
         \<and> scanned res = [] \<and> returned res = - 1
         \<and> printed res =
             [Msg title, Msg (nl @ ''fmc() n=''), Val (sint (sp - END_OF_HEAP cfg s)),
              Msg (nl @ ''&__brkval: ''), Hex16 (brkval_addr cfg), Msg ''='', Hex16 (brkval s),
              Msg (nl @ ''__bss_end: ''), Hex16 (bss_end cfg), Msg '' sp='', Hex16 sp]
             @ [Msg '' sp < Heap ''] @ d
             @ [Msg ''  block_found='', Val 0,
                Msg (nl @ ''Memory Corruption detected in free memory area.''), Eol,
                Msg '' return='', Msg ''true'', Eol]"
proof -
  obtain d where d: "M100_dump_routine cfg (ram s)
      (''   Memory corruption detected with sp<Heap'' @ nl) 0x1B80 0x21FF = Some d"
    by (simp add: forensic_dump)
  have "sint (sp - END_OF_HEAP cfg s) < 0"
    using assms by (rule sint_negative_distance)
  then have "\<not> 0 <s sp - END_OF_HEAP cfg s"
    by (simp add: word_sless_alt)
  then have scan: "check_scan (ram s) (END_OF_HEAP cfg s) (sp - END_OF_HEAP cfg s) 0 st = Some st"
    for st
    by (subst check_scan.simps) simp
  show ?thesis
    using assms(1) d
    by (simp add: check_for_free_memory_corruption_def Let_def scan)
qed

theorem collision_check_witness:
  "\<exists>res. check_for_free_memory_corruption scenario_config
            (scenario_machine\<lparr>brkval := 0x2100\<rparr>) 0x20F0 ''M100 F '' = Some res
         \<and> scanned res = [] \<and> returned res = - 1"
proof -
  have "(0x20F0 :: addr) < END_OF_HEAP scenario_config (scenario_machine\<lparr>brkval := 0x2100\<rparr>)"
    "unat (END_OF_HEAP scenario_config (scenario_machine\<lparr>brkval := 0x2100\<rparr>) - 0x20F0) \<le> 32768"
    by (simp_all add: END_OF_HEAP_def scenario_machine_def)
  from collision_check [OF this, of "''M100 F ''"] show ?thesis
    by blast
qed

text \<open>
  C5, as stated, fails when the end lies more than 32768 bytes below the start: the
  difference \<^verbatim>\<open>n = sp - ptr\<close> is then positive on 16 bits and the scan runs. With the
  heap at 0xA1F2 and the stack top at 0x21F0, \<open>n\<close> is 32766 and the scan reads bytes.
\<close>

theorem collision_far_apart_counterexample:
  "(0x21F0 :: addr) < END_OF_HEAP scenario_config external_heap_machine
   \<and> (\<exists>res. check_for_free_memory_corruption scenario_config external_heap_machine
                0x21F0 ''M100 F '' = Some res
            \<and> scanned res \<noteq> [])"
proof -
  have eoh: "END_OF_HEAP scenario_config external_heap_machine = 0xA1F2"
    by (simp add: END_OF_HEAP_def external_heap_machine_def)
  have ram: "ram external_heap_machine = (\<lambda>a. 0)"
    by (simp add: external_heap_machine_def)
  have n: "(0x21F0 :: addr) - 0xA1F2 = of_nat 32766"
    by simp
  define st0 :: scan where "st0 = \<lparr>block_cnt = 0, scan_out = [], examined = []\<rparr>"
  define st1 where "st1 = st0\<lparr>examined := examined st0 @ [0xA1F2 + 0]\<rparr>"
  have first: "check_scan (\<lambda>a. 0) 0xA1F2 (of_nat 32766) 0 st0
                 = check_scan (\<lambda>a. 0) 0xA1F2 (of_nat 32766) (0 + 1) st1"
    by (subst check_scan.simps) (simp add: Let_def TEST_BYTE_def st1_def word_sless_alt)
  have "scan_reaches (\<lambda>a. 0) 0xA1F2 (of_nat 32766) 1 (1 + 32765) 0"
    by (rule scan_skip) (simp_all add: peek_def TEST_BYTE_def)
  then obtain st' where st': "check_scan (\<lambda>a. 0) 0xA1F2 (of_nat 32766) (of_nat 1) st1
                 = check_scan (\<lambda>a. 0) 0xA1F2 (of_nat 32766) (of_nat (1 + 32765)) st'"
    unfolding scan_reaches_def by blast
  have last: "check_scan (\<lambda>a. 0) 0xA1F2 (of_nat 32766) (of_nat (1 + 32765)) st' = Some st'"
    by (subst check_scan.simps) simp
  from st' last have "check_scan (\<lambda>a. 0) 0xA1F2 (of_nat 32766) (0 + 1) st1 = Some st'"
    by simp
  then have "length (examined st1) \<le> length (examined st')"
    by (rule check_scan_examined_mono)
  then have ne: "examined st' \<noteq> []"
    by (auto simp: st1_def)
  from first st' last have run: "check_scan (\<lambda>a. 0) 0xA1F2 (of_nat 32766) 0 st0 = Some st'"
    by simp
  have "check_scan (ram external_heap_machine) (END_OF_HEAP scenario_config external_heap_machine)
          (0x21F0 - END_OF_HEAP scenario_config external_heap_machine) 0
          \<lparr>block_cnt = 0, scan_out = [], examined = []\<rparr> = Some st'"
    unfolding eoh ram n using run by (simp only: st0_def)
  then have "\<exists>res. check_for_free_memory_corruption scenario_config external_heap_machine
                0x21F0 ''M100 F '' = Some res \<and> scanned res = examined st'"
    by (rule check_scanned)
  with ne show ?thesis
    by (auto simp: eoh)
qed

subsection \<open>When the initialiser runs\<close>


















end
